theory Spec2Isabelle
  imports Complex_Main "HOL-Library.AList" "HOL-Library.Multiset"
begin

section \<open>Python values, exceptions and networkx graphs\<close>

text \<open>
  Every exception the two modules can raise is a value; a call that raises returns
  \<open>Inl\<close> of it. \<open>OracleError\<close> stands for whatever the caller's similarity function
  raises.
\<close>

datatype error =
    ZeroDivisionError
  | ValueError
  | AttributeError
  | KeyError
  | TypeError
  | AssertionError
  | NetworkXError
  | OracleError string

text \<open>
  Nodes are hashable Python values. Two kinds matter to the code: \<open>str\<close> nodes and
  the others (modelled by \<open>int\<close>, which also covers \<open>bool\<close>: \<open>True == 1\<close> and
  \<open>hash(True) == hash(1)\<close>, so they are the same dictionary key).
\<close>

datatype pynode = PyStr string | PyInt int

fun is_str :: "pynode \<Rightarrow> bool" where
  "is_str (PyStr s) = True"
| "is_str (PyInt k) = False"

text \<open>
  A networkx 1.11 graph is its adjacency dictionary \<open>G.adj\<close>: one key per node, in
  insertion order, each with the keys of its neighbour dictionary, in insertion order.
  For \<open>nx.Graph\<close> the adjacency is symmetric; for \<open>nx.DiGraph\<close> it lists successors.
\<close>

type_synonym 'a graph = "('a \<times> 'a list) list"

definition nodes :: "'a graph \<Rightarrow> 'a list" where
  "nodes G = map fst G"

definition has_node :: "'a graph \<Rightarrow> 'a \<Rightarrow> bool" where
  \<comment> \<open>\<open>n in G\<close>\<close>
  "has_node G n = (n \<in> set (nodes G))"

definition adj_of :: "'a graph \<Rightarrow> 'a \<Rightarrow> 'a list" where
  \<comment> \<open>the keys of \<open>G.adj[n]\<close>; empty where \<open>n\<close> is not a node\<close>
  "adj_of G n = (case map_of G n of None \<Rightarrow> [] | Some ns \<Rightarrow> ns)"

definition neighbors :: "'a graph \<Rightarrow> 'a \<Rightarrow> error + 'a list" where
  \<comment> \<open>\<open>G.neighbors(n)\<close>: raises \<open>NetworkXError\<close> where \<open>n\<close> is not a node\<close>
  "neighbors G n = (case map_of G n of None \<Rightarrow> Inl NetworkXError | Some ns \<Rightarrow> Inr ns)"

definition has_edge :: "'a graph \<Rightarrow> 'a \<Rightarrow> 'a \<Rightarrow> bool" where
  "has_edge G u v = (v \<in> set (adj_of G u))"

definition ins :: "'a \<Rightarrow> 'a list \<Rightarrow> 'a list" where
  \<comment> \<open>setting a key of a dictionary: a new key goes last, an old one keeps its place\<close>
  "ins x xs = (if x \<in> set xs then xs else xs @ [x])"

definition add_node :: "'a graph \<Rightarrow> 'a \<Rightarrow> 'a graph" where
  "add_node G n = (if has_node G n then G else G @ [(n, [])])"

fun add_nodes_from :: "'a graph \<Rightarrow> 'a list \<Rightarrow> 'a graph" where
  "add_nodes_from G [] = G"
| "add_nodes_from G (n # ns) = add_nodes_from (add_node G n) ns"

definition add_edge :: "'a graph \<Rightarrow> 'a \<Rightarrow> 'a \<Rightarrow> 'a graph" where
  \<comment> \<open>\<open>nx.Graph.add_edge\<close>: both endpoints become nodes, \<open>adj[u][v]\<close> and \<open>adj[v][u]\<close> are set\<close>
  "add_edge G u v =
     (let G1 = add_node (add_node G u) v;
          G2 = AList.update u (ins v (adj_of G1 u)) G1
      in AList.update v (ins u (adj_of G2 v)) G2)"

fun add_edges_from :: "'a graph \<Rightarrow> ('a \<times> 'a) list \<Rightarrow> 'a graph" where
  "add_edges_from G [] = G"
| "add_edges_from G ((u, v) # es) = add_edges_from (add_edge G u v) es"

section \<open>Fusing: \<open>fuse\<close> of \<open>netfuses.py\<close>\<close>

text \<open>
  The similarity function takes the source node, the set of candidate nodes and the
  threshold (its keyword arguments are part of the closure) and returns the analogs, or
  raises. \<open>verbose\<close> is \<open>None\<close> or an integer; the status lines it prints are not part
  of the result. Python leaves the iteration order of a set open: the model lists a set
  in one order, and the properties below speak of membership and of numbers of edges,
  which no order changes.
\<close>

type_synonym ('a, 't) simfn = "'a \<Rightarrow> 'a set \<Rightarrow> 't \<Rightarrow> error + 'a list"

definition union_nodes :: "'a graph list \<Rightarrow> 'a list" where
  \<comment> \<open>\<open>set().union(*map(set, graphs))\<close>; \<open>vstar\<close> below is the source's \<open>union\<close>\<close>
  "union_nodes graphs = remdups (concat (map nodes graphs))"

definition progress :: "int option \<Rightarrow> nat \<Rightarrow> error + bool" where
  \<comment> \<open>\<open>verbose is not None and i % verbose == 0\<close>: whether the status line is printed\<close>
  "progress verbose i =
     (case verbose of
        None \<Rightarrow> Inr False
      | Some k \<Rightarrow> if k = 0 then Inl ZeroDivisionError else Inr (int i mod k = 0))"

fun fuse_scan ::
  "'t \<Rightarrow> ('a, 't) simfn \<Rightarrow> int option \<Rightarrow> 'a list \<Rightarrow> (nat \<times> 'a) list \<Rightarrow> 'a graph \<Rightarrow> error + 'a graph"
where
  "fuse_scan t simfn verbose vstar [] G = Inr G"
| "fuse_scan t simfn verbose vstar ((i, u) # rest) G =
     (case progress verbose i of
        Inl e \<Rightarrow> Inl e
      | Inr printed \<Rightarrow>
          (case simfn u (set vstar - {u}) t of
             Inl e \<Rightarrow> Inl e
           | Inr analogs \<Rightarrow>
               fuse_scan t simfn verbose vstar rest
                 (add_edges_from G (map (\<lambda>a. (u, a)) analogs))))"

definition fuse :: "'t \<Rightarrow> ('a, 't) simfn \<Rightarrow> 'a graph list \<Rightarrow> int option \<Rightarrow> error + 'a graph" where
  "fuse t simfn graphs verbose =
     (let vstar = union_nodes graphs;
          G = add_edges_from (add_nodes_from [] vstar) (map (\<lambda>u. (u, u)) vstar)
      in fuse_scan t simfn verbose vstar (List.enumerate 1 vstar) G)"

section \<open>Fusing: \<open>NetworkFuser.fuse\<close> of \<open>netfuses/netfuses.py\<close>\<close>

text \<open>
  An instance is its attribute dictionary. The constructor sets \<open>similarity_func\<close> and
  \<open>t\<close>; reading any other attribute raises \<open>AttributeError\<close>.
\<close>

datatype attr = Func "pynode \<Rightarrow> pynode \<Rightarrow> real" | Num real

type_synonym NetworkFuser = "(string \<times> attr) list"

definition init :: "(pynode \<Rightarrow> pynode \<Rightarrow> real) \<Rightarrow> real \<Rightarrow> NetworkFuser" where
  "init simfn threshold = [(''similarity_func'', Func simfn), (''t'', Num threshold)]"

definition getattr :: "NetworkFuser \<Rightarrow> string \<Rightarrow> error + attr" where
  "getattr self name = (case map_of self name of None \<Rightarrow> Inl AttributeError | Some a \<Rightarrow> Inr a)"

definition above_threshold :: "NetworkFuser \<Rightarrow> pynode \<Rightarrow> pynode \<Rightarrow> error + bool" where
  \<comment> \<open>\<open>self.similarit_func(u, v) > self.t\<close>\<close>
  "above_threshold self u v =
     (case getattr self ''similarit_func'' of
        Inl e \<Rightarrow> Inl e
      | Inr (Num x) \<Rightarrow> Inl TypeError
      | Inr (Func f) \<Rightarrow>
          (case getattr self ''t'' of
             Inl e \<Rightarrow> Inl e
           | Inr (Func g) \<Rightarrow> Inl TypeError
           | Inr (Num x) \<Rightarrow> Inr (f u v > x)))"

fun above_all :: "NetworkFuser \<Rightarrow> pynode \<Rightarrow> pynode list \<Rightarrow> error + bool list" where
  \<comment> \<open>\<open>[self._above_threshold(u, v) for v in valid_nodes]\<close>\<close>
  "above_all self u [] = Inr []"
| "above_all self u (v # vs) =
     (case above_threshold self u v of
        Inl e \<Rightarrow> Inl e
      | Inr b \<Rightarrow> (case above_all self u vs of Inl e \<Rightarrow> Inl e | Inr bs \<Rightarrow> Inr (b # bs)))"

definition bool_node :: "bool \<Rightarrow> pynode" where
  "bool_node b = PyInt (if b then 1 else 0)"

definition cls_progress :: "int option \<Rightarrow> nat \<Rightarrow> error + unit" where
  \<comment> \<open>as \<open>progress\<close>, but the format string of the status line is malformed
      (\<open>{1:5d/{2:5d}\<close>), so \<open>str.format\<close> raises \<open>ValueError\<close> when the line is printed\<close>
  "cls_progress verbose i =
     (case progress verbose i of
        Inl e \<Rightarrow> Inl e
      | Inr printed \<Rightarrow> if printed then Inl ValueError else Inr ())"

fun cls_fuse_scan ::
  "NetworkFuser \<Rightarrow> int option \<Rightarrow> pynode list \<Rightarrow> (nat \<times> pynode) list \<Rightarrow> pynode graph \<Rightarrow> error + pynode graph"
where
  "cls_fuse_scan self verbose vstar [] G = Inr G"
| "cls_fuse_scan self verbose vstar ((i, u) # rest) G =
     (case cls_progress verbose i of
        Inl e \<Rightarrow> Inl e
      | Inr _ \<Rightarrow>
          (case above_all self u (removeAll u vstar) of
             Inl e \<Rightarrow> Inl e
           | Inr analogs \<Rightarrow>
               cls_fuse_scan self verbose vstar rest
                 (add_edges_from G (map (\<lambda>a. (u, bool_node a)) analogs))))"

definition cls_fuse :: "NetworkFuser \<Rightarrow> pynode graph list \<Rightarrow> int option \<Rightarrow> error + pynode graph" where
  "cls_fuse self graphs verbose =
     (let vstar = union_nodes graphs;
          G = add_edges_from (add_nodes_from [] vstar) (map (\<lambda>u. (u, u)) vstar)
      in cls_fuse_scan self verbose vstar (List.enumerate 1 vstar) G)"

section \<open>Connected components of the fused graph\<close>

text \<open>
  Modelled from the spec: \<open>nx.connected_component_subgraphs\<close> belongs to networkx 1.11,
  a dependency whose code is not part of the repository. Following the spec's data model
  (a component is a maximal set of nodes reachable from one another, found by a traversal
  of the adjacency, components in discovery order), \<open>reach\<close> is a worklist traversal and
  \<open>connected_component_subgraphs\<close> starts one from every node no earlier component
  holds. The code of \<open>collapse\<close> uses a component subgraph only through its nodes
  (\<open>len\<close>, iteration, \<open>in\<close>), so a component is the list of its nodes. A neighbour
  is always a node of an \<open>nx.Graph\<close>; the traversal passes over one that is not.
\<close>

function reach :: "'a graph \<Rightarrow> 'a list \<Rightarrow> 'a list \<Rightarrow> 'a list" where
  "reach G [] seen = seen"
| "reach G (v # ws) seen =
     (if v \<in> set seen \<or> \<not> has_node G v then reach G ws seen
      else reach G (adj_of G v @ ws) (seen @ [v]))"
  by pat_completeness auto
termination
proof (relation "measures [\<lambda>(G, ws, seen). card (set (nodes G) - set seen),
                           \<lambda>(G, ws, seen). length ws]")
  show "wf (measures [\<lambda>(G, ws, seen). card (set (nodes G) - set seen),
                      \<lambda>(G :: 'a graph, ws, seen). length ws])"
    by simp
next
  fix G :: "'a graph" and v ws seen
  show "((G, ws, seen), (G, v # ws, seen))
          \<in> measures [\<lambda>(G, ws, seen). card (set (nodes G) - set seen),
                       \<lambda>(G, ws, seen). length ws]"
    by simp
next
  fix G :: "'a graph" and v ws seen
  assume "\<not> (v \<in> set seen \<or> \<not> has_node G v)"
  then have "v \<in> set (nodes G) - set seen"
    by (simp add: has_node_def)
  then have "card (set (nodes G) - set (seen @ [v])) < card (set (nodes G) - set seen)"
    by (intro psubset_card_mono) auto
  then show "((G, adj_of G v @ ws, seen @ [v]), (G, v # ws, seen))
          \<in> measures [\<lambda>(G, ws, seen). card (set (nodes G) - set seen),
                       \<lambda>(G, ws, seen). length ws]"
    by simp
qed

fun cc_scan :: "'a graph \<Rightarrow> 'a list \<Rightarrow> 'a list \<Rightarrow> 'a list list" where
  "cc_scan G [] seen = []"
| "cc_scan G (v # vs) seen =
     (if v \<in> set seen then cc_scan G vs seen
      else (let c = reach G [v] [] in c # cc_scan G vs (seen @ c)))"

definition connected_component_subgraphs :: "'a graph \<Rightarrow> 'a list list" where
  "connected_component_subgraphs G = cc_scan G (nodes G) []"

section \<open>Collapsing: \<open>collapse_fused_graph\<close> and \<open>NetworkFuser.collapse\<close>\<close>

text \<open>
  The collapsed \<open>nx.MultiGraph\<close>: its nodes in insertion order and one entry of
  \<open>medges\<close> for every edge added (a multigraph gives every added edge a key of its own,
  so nothing is merged). \<open>fused_set_attr\<close> is the node attribute \<open>'fused_set'\<close>.
\<close>

record mgraph =
  mnodes :: "nat list"
  medges :: "(nat \<times> nat) list"
  fused_set_attr :: "(nat \<times> pynode set) list"

definition empty_mgraph :: mgraph where
  \<comment> \<open>\<open>nx.MultiGraph()\<close>\<close>
  "empty_mgraph = \<lparr>mnodes = [], medges = [], fused_set_attr = []\<rparr>"

definition madd_node :: "mgraph \<Rightarrow> nat \<Rightarrow> mgraph" where
  "madd_node C i = C\<lparr>mnodes := ins i (mnodes C)\<rparr>"

definition madd_edge :: "mgraph \<Rightarrow> nat \<times> nat \<Rightarrow> mgraph" where
  "madd_edge C e = C\<lparr>mnodes := ins (snd e) (ins (fst e) (mnodes C)), medges := medges C @ [e]\<rparr>"

fun madd_edges_from :: "mgraph \<Rightarrow> (nat \<times> nat) list \<Rightarrow> mgraph" where
  "madd_edges_from C [] = C"
| "madd_edges_from C (e # es) = madd_edges_from (madd_edge C e) es"

text \<open>
  What a caller can pass among \<open>*graphs\<close>: a graph, or a value that is not one. A list
  supports \<open>in\<close> but has no \<open>neighbors\<close>; a number supports neither.
\<close>

datatype source = NxGraph "pynode graph" | PyList "pynode list" | PyNumber int

fun is_graph :: "source \<Rightarrow> bool" where
  \<comment> \<open>\<open>isinstance(g, nx.Graph)\<close>\<close>
  "is_graph (NxGraph g) = True"
| "is_graph (PyList xs) = False"
| "is_graph (PyNumber k) = False"

fun contains :: "source \<Rightarrow> pynode \<Rightarrow> error + bool" where
  \<comment> \<open>\<open>node in g\<close>\<close>
  "contains (NxGraph g) node = Inr (has_node g node)"
| "contains (PyList xs) node = Inr (node \<in> set xs)"
| "contains (PyNumber k) node = Inl TypeError"

fun source_neighbors :: "source \<Rightarrow> pynode \<Rightarrow> error + pynode list" where
  \<comment> \<open>\<open>Gi.neighbors(node)\<close>\<close>
  "source_neighbors (NxGraph g) node = neighbors g node"
| "source_neighbors (PyList xs) node = Inl AttributeError"
| "source_neighbors (PyNumber k) node = Inl AttributeError"

fun gather_graphs ::
  "pynode list \<Rightarrow> pynode \<Rightarrow> source list \<Rightarrow> pynode list \<times> pynode list
     \<Rightarrow> error + pynode list \<times> pynode list"
where
  \<comment> \<open>the inner loop \<open>for Gi in filter(lambda g: node in g, graphs)\<close>; the accumulator is
      \<open>(self_loops, neighbors)\<close>\<close>
  "gather_graphs component node [] acc = Inr acc"
| "gather_graphs component node (g # gs) acc =
     (case contains g node of
        Inl e \<Rightarrow> Inl e
      | Inr False \<Rightarrow> gather_graphs component node gs acc
      | Inr True \<Rightarrow>
          (case source_neighbors g node of
             Inl e \<Rightarrow> Inl e
           | Inr ns \<Rightarrow>
               gather_graphs component node gs
                 (fst acc @ filter (\<lambda>n. n \<in> set component) ns, snd acc @ ns)))"

fun gather_nodes ::
  "pynode list \<Rightarrow> pynode list \<Rightarrow> source list \<Rightarrow> pynode list \<times> pynode list
     \<Rightarrow> error + pynode list \<times> pynode list"
where
  \<comment> \<open>the loop \<open>for node in component\<close>\<close>
  "gather_nodes component [] graphs acc = Inr acc"
| "gather_nodes component (node # rest) graphs acc =
     (case gather_graphs component node graphs acc of
        Inl e \<Rightarrow> Inl e
      | Inr acc' \<Rightarrow> gather_nodes component rest graphs acc')"

fun dict_update :: "('k \<times> 'v) list \<Rightarrow> ('k \<times> 'v) list \<Rightarrow> ('k \<times> 'v) list" where
  "dict_update d [] = d"
| "dict_update d ((k, v) # kvs) = dict_update (AList.update k v d) kvs"

definition update_kwargs ::
  "(pynode \<times> nat) list \<Rightarrow> (pynode \<times> nat) list \<Rightarrow> error + (pynode \<times> nat) list"
where
  \<comment> \<open>\<open>d.update(**kw)\<close>: keyword names must be \<open>str\<close>, else \<open>TypeError\<close>\<close>
  "update_kwargs d kw =
     (if list_all is_str (map fst kw) then Inr (dict_update d kw) else Inl TypeError)"

fun add_mapped_edges ::
  "nat \<Rightarrow> (pynode \<times> nat) list \<Rightarrow> pynode list \<Rightarrow> mgraph \<Rightarrow> error \<times> mgraph + mgraph"
where
  \<comment> \<open>\<open>collapsed.add_edges_from((i, node2fuse_id[u]) for u in neighbors)\<close>: the generator
      is consumed edge by edge, so the edges before a missing key stay in the graph\<close>
  "add_mapped_edges i node2fuse_id [] C = Inr C"
| "add_mapped_edges i node2fuse_id (u # us) C =
     (case map_of node2fuse_id u of
        None \<Rightarrow> Inl (KeyError, C)
      | Some j \<Rightarrow> add_mapped_edges i node2fuse_id us (madd_edge C (i, j)))"

type_synonym cstate = "mgraph \<times> (nat \<times> pynode set) list \<times> (pynode \<times> nat) list"

fun collapse_component ::
  "source list \<Rightarrow> nat \<times> pynode list \<Rightarrow> cstate \<Rightarrow> error \<times> mgraph + cstate"
where
  \<comment> \<open>one round of \<open>for i, component in enumerate(conn_comps)\<close>; an error comes with the
      contents of \<open>collapsed\<close> at that moment, since the graph is changed in place\<close>
  "collapse_component graphs (i, component) (collapsed, id2fused_set, node2fuse_id) =
     (let id2fused_set' = AList.update i (set component) id2fused_set
      in case update_kwargs node2fuse_id (map (\<lambda>u. (u, i)) component) of
           Inl e \<Rightarrow> Inl (e, collapsed)
         | Inr node2fuse_id' \<Rightarrow>
             (let collapsed1 = madd_node collapsed i
              in case gather_nodes component component graphs ([], []) of
                   Inl e \<Rightarrow> Inl (e, collapsed1)
                 | Inr (self_loops, nbrs) \<Rightarrow>
                     (case add_mapped_edges i node2fuse_id' nbrs collapsed1 of
                        Inl ec \<Rightarrow> Inl ec
                      | Inr collapsed2 \<Rightarrow>
                          Inr (madd_edges_from collapsed2 (replicate (length self_loops) (i, i)),
                               id2fused_set', node2fuse_id'))))"

fun collapse_loop ::
  "source list \<Rightarrow> (nat \<times> pynode list) list \<Rightarrow> cstate \<Rightarrow> error \<times> mgraph + cstate"
where
  "collapse_loop graphs [] st = Inr st"
| "collapse_loop graphs (ic # rest) st =
     (case collapse_component graphs ic st of
        Inl ec \<Rightarrow> Inl ec
      | Inr st' \<Rightarrow> collapse_loop graphs rest st')"

text \<open>
  The parameter \<open>collapsed=nx.MultiGraph()\<close> is evaluated once, when the function is
  defined: every call that leaves it out works on that one object. The first argument of
  the model is the contents of that object before the call, the second component of the
  result its contents after the call; \<open>collapsed_arg\<close> is \<open>None\<close> when the caller
  leaves the parameter out.
\<close>

definition collapse_fused_graph ::
  "mgraph \<Rightarrow> pynode graph \<Rightarrow> source list \<Rightarrow> mgraph option
     \<Rightarrow> (error + cstate) \<times> mgraph"
where
  "collapse_fused_graph dflt fuser graphs collapsed_arg =
     (let collapsed = (case collapsed_arg of None \<Rightarrow> dflt | Some C \<Rightarrow> C);
          conn_comps = sort_key length (connected_component_subgraphs fuser)
      in case collapse_loop graphs (List.enumerate 0 conn_comps) (collapsed, [], []) of
           Inl (e, C) \<Rightarrow> (Inl e, case collapsed_arg of None \<Rightarrow> C | Some _ \<Rightarrow> dflt)
         | Inr (C, id2fused_set, node2fuse_id) \<Rightarrow>
             (Inr (C, id2fused_set, node2fuse_id),
              case collapsed_arg of None \<Rightarrow> C | Some _ \<Rightarrow> dflt))"

definition set_node_attributes :: "mgraph \<Rightarrow> (nat \<times> pynode set) list \<Rightarrow> mgraph" where
  \<comment> \<open>\<open>nx.set_node_attributes(collapsed, 'fused_set', id2fused_set)\<close>\<close>
  "set_node_attributes C values = C\<lparr>fused_set_attr := dict_update (fused_set_attr C) values\<rparr>"

definition cls_collapse ::
  "mgraph \<Rightarrow> pynode graph \<Rightarrow> source list \<Rightarrow> mgraph option
     \<Rightarrow> (error + mgraph \<times> (pynode \<times> nat) list) \<times> mgraph"
where
  \<comment> \<open>\<open>NetworkFuser.collapse\<close>; \<open>self\<close> is not used by the method\<close>
  "cls_collapse dflt fuser graphs collapsed_arg =
     (if \<not> list_all is_graph graphs then (Inl AssertionError, dflt)
      else
        (let collapsed = (case collapsed_arg of None \<Rightarrow> dflt | Some C \<Rightarrow> C);
             conn_comps = sort_key length (connected_component_subgraphs fuser)
         in case collapse_loop graphs (List.enumerate 0 conn_comps) (collapsed, [], []) of
              Inl (e, C) \<Rightarrow> (Inl e, case collapsed_arg of None \<Rightarrow> C | Some _ \<Rightarrow> dflt)
            | Inr (C, id2fused_set, node2fuse_id) \<Rightarrow>
                (let C' = set_node_attributes C id2fused_set
                 in (Inr (C', node2fuse_id),
                     case collapsed_arg of None \<Rightarrow> C' | Some _ \<Rightarrow> dflt))))"

section \<open>Notions used to state the properties\<close>

text \<open>
  The invariant of an \<open>nx.Graph\<close> object: no node is listed twice, every neighbour is a
  node, and the adjacency is symmetric.
\<close>

definition wf_graph :: "'a graph \<Rightarrow> bool" where
  "wf_graph G \<longleftrightarrow>
     distinct (nodes G) \<and>
     list_all (\<lambda>(u, ns). list_all (\<lambda>v. has_node G v \<and> has_edge G v u) ns) G"

text \<open>
  The adjacency entries of a node \<open>u\<close> in the source graphs: the neighbours of \<open>u\<close> in
  every source graph that holds \<open>u\<close>, graph after graph. An undirected edge between two
  distinct nodes is an entry at each endpoint, a self-loop is one entry.
\<close>

fun src_adj :: "source \<Rightarrow> pynode \<Rightarrow> pynode list" where
  "src_adj (NxGraph g) u = adj_of g u"
| "src_adj (PyList xs) u = []"
| "src_adj (PyNumber k) u = []"

definition member_neighbors :: "source list \<Rightarrow> pynode \<Rightarrow> pynode list" where
  "member_neighbors graphs u = concat (map (\<lambda>g. src_adj g u) graphs)"

text \<open>
  What one round of the loop of \<open>collapse\<close> gathers and adds for a component: \<open>nbrs\<close>
  is the list \<open>neighbors\<close> of the code (the adjacency entries of the members, member
  after member), \<open>block\<close> the edges the round adds for component \<open>i\<close>: one edge to the
  component of every gathered neighbour, then one self-loop for every gathered neighbour
  that lies in the component.
\<close>

definition nbrs :: "source list \<Rightarrow> pynode list \<Rightarrow> pynode list" where
  "nbrs graphs c = concat (map (member_neighbors graphs) c)"

definition block ::
  "source list \<Rightarrow> (pynode \<times> nat) list \<Rightarrow> nat \<times> pynode list \<Rightarrow> (nat \<times> nat) list"
where
  "block graphs n2 ic =
     map (\<lambda>u. (fst ic, the (map_of n2 u))) (nbrs graphs (snd ic)) @
     replicate (length (filter (\<lambda>n. n \<in> set (snd ic)) (nbrs graphs (snd ic)))) (fst ic, fst ic)"

text \<open>
  The two membership maps partition the node set of the fused graph: the component ids
  are distinct keys, the member sets have \<open>|V*|\<close> elements in total, cover the nodes and
  are pairwise disjoint, and \<open>node2fuse_id\<close> has exactly the nodes as keys and sends
  every member of a component to that component's id.
\<close>

definition is_partition ::
  "pynode graph \<Rightarrow> (nat \<times> pynode set) list \<Rightarrow> (pynode \<times> nat) list \<Rightarrow> bool"
where
  "is_partition fuser id2fused_set node2fuse_id \<longleftrightarrow>
     distinct (map fst id2fused_set) \<and>
     sum_list (map (\<lambda>(i, S). card S) id2fused_set) = length (nodes fuser) \<and>
     \<Union> (snd ` set id2fused_set) = set (nodes fuser) \<and>
     (\<forall>(i, S)\<in>set id2fused_set. \<forall>(j, T)\<in>set id2fused_set. i \<noteq> j \<longrightarrow> S \<inter> T = {}) \<and>
     fst ` set node2fuse_id = set (nodes fuser) \<and>
     (\<forall>(i, S)\<in>set id2fused_set. \<forall>u\<in>S. map_of node2fuse_id u = Some i)"

section \<open>Properties of the graph operations\<close>

lemma nodes_add_node: "set (nodes (add_node G n)) = insert n (set (nodes G))"
  by (auto simp: add_node_def has_node_def nodes_def)

lemma adj_of_add_node [simp]: "adj_of (add_node G n) x = adj_of G x"
proof (cases "has_node G n")
  case True
  then show ?thesis by (simp add: add_node_def)
next
  case False
  then have "map_of G n = None"
    by (simp add: has_node_def nodes_def map_of_eq_None_iff)
  then show ?thesis using False
    by (simp add: add_node_def adj_of_def map_add_def split: option.splits)
qed

lemma distinct_add_node: "distinct (nodes G) \<Longrightarrow> distinct (nodes (add_node G n))"
  by (auto simp: add_node_def has_node_def nodes_def)


lemma nodes_update_same: "k \<in> set (nodes G) \<Longrightarrow> nodes (AList.update k v G) = nodes G"
  unfolding nodes_def by (simp add: update_keys)

lemma adj_of_update: "adj_of (AList.update k v G) x = (if x = k then v else adj_of G x)"
  by (simp add: adj_of_def update_conv')

lemma set_ins [simp]: "set (ins x xs) = insert x (set xs)"
  by (auto simp: ins_def)

lemma distinct_ins [simp]: "distinct (ins x xs) = distinct xs"
  by (auto simp: ins_def)

lemma nodes_add_edge_aux:
  "nodes (add_edge G u v) = nodes (add_node (add_node G u) v)"
  by (simp add: add_edge_def Let_def nodes_update_same nodes_add_node)

lemma nodes_add_edge: "set (nodes (add_edge G u v)) = insert u (insert v (set (nodes G)))"
  by (auto simp: nodes_add_edge_aux nodes_add_node)

lemma distinct_add_edge: "distinct (nodes G) \<Longrightarrow> distinct (nodes (add_edge G u v))"
  by (simp add: nodes_add_edge_aux distinct_add_node)

lemma set_adj_of_add_edge:
  "set (adj_of (add_edge G u v) x) =
     set (adj_of G x) \<union> (if x = u then {v} else {}) \<union> (if x = v then {u} else {})"
  by (auto simp: add_edge_def Let_def adj_of_update)

lemma has_edge_add_edge:
  "has_edge (add_edge G u v) x y \<longleftrightarrow> has_edge G x y \<or> (x = u \<and> y = v) \<or> (x = v \<and> y = u)"
  by (auto simp: has_edge_def set_adj_of_add_edge)

lemma distinct_adj_of_add_edge:
  "distinct (adj_of G x) \<Longrightarrow> distinct (adj_of (add_edge G u v) x)"
  by (auto simp: add_edge_def Let_def adj_of_update)

lemma has_edge_empty [simp]: "\<not> has_edge [] x y"
  by (simp add: has_edge_def adj_of_def)

lemma has_edge_add_node [simp]: "has_edge (add_node G n) x y = has_edge G x y"
  by (simp add: has_edge_def)

lemma has_edge_add_nodes_from [simp]: "has_edge (add_nodes_from G ns) x y = has_edge G x y"
  by (induction ns arbitrary: G) simp_all

lemma nodes_add_nodes_from: "set (nodes (add_nodes_from G ns)) = set (nodes G) \<union> set ns"
  by (induction ns arbitrary: G) (auto simp: nodes_add_node)

lemma has_edge_add_edges_from:
  "has_edge (add_edges_from G es) x y \<longleftrightarrow> has_edge G x y \<or> (x, y) \<in> set es \<or> (y, x) \<in> set es"
proof (induction es arbitrary: G)
  case Nil
  then show ?case by simp
next
  case (Cons e es)
  obtain u v where e: "e = (u, v)" by (cases e)
  show ?case unfolding e by (simp add: Cons.IH has_edge_add_edge) blast
qed

lemma nodes_add_edges_from:
  "set (nodes (add_edges_from G es)) = set (nodes G) \<union> fst ` set es \<union> snd ` set es"
proof (induction es arbitrary: G)
  case Nil
  then show ?case by simp
next
  case (Cons e es)
  obtain u v where e: "e = (u, v)" by (cases e)
  show ?case by (simp add: e Cons.IH nodes_add_edge) blast
qed

lemma nodes_Nil [simp]: "nodes [] = []"
  by (simp add: nodes_def)

lemma distinct_add_nodes_from: "distinct (nodes G) \<Longrightarrow> distinct (nodes (add_nodes_from G ns))"
  by (induction ns arbitrary: G) (auto simp: distinct_add_node)

lemma distinct_add_edges_from: "distinct (nodes G) \<Longrightarrow> distinct (nodes (add_edges_from G es))"
  by (induction es arbitrary: G) (auto simp: distinct_add_edge)

lemma has_edge_fuse_init:
  "has_edge (add_edges_from (add_nodes_from [] V) (map (\<lambda>u. (u, u)) V)) x y
     \<longleftrightarrow> x = y \<and> x \<in> set V"
  by (auto simp: has_edge_add_edges_from)

lemma nodes_fuse_init:
  "set (nodes (add_edges_from (add_nodes_from [] V) (map (\<lambda>u. (u, u)) V))) = set V"
  by (simp add: nodes_add_edges_from nodes_add_nodes_from image_image)

section \<open>Properties of fusing\<close>

lemma fuse_scan_edges:
  "fuse_scan t simfn verbose V ius G = Inr G' \<Longrightarrow>
   has_edge G' x y \<longleftrightarrow>
     has_edge G x y \<or>
     (\<exists>u\<in>snd ` set ius. \<exists>as. simfn u (set V - {u}) t = Inr as \<and>
        ((x = u \<and> y \<in> set as) \<or> (y = u \<and> x \<in> set as)))"
proof (induction ius arbitrary: G)
  case Nil
  then show ?case by simp
next
  case (Cons iu ius)
  obtain i u where iu: "iu = (i, u)" by (cases iu)
  from Cons.prems iu obtain as where
    as: "simfn u (set V - {u}) t = Inr as" and
    rest: "fuse_scan t simfn verbose V ius (add_edges_from G (map (\<lambda>a. (u, a)) as)) = Inr G'"
    by (auto split: sum.splits)
  show ?case
    unfolding Cons.IH[OF rest] using as
    by (auto simp: iu has_edge_add_edges_from)
qed

lemma fuse_scan_nodes_sub:
  "fuse_scan t simfn verbose V ius G = Inr G' \<Longrightarrow>
   \<forall>u as. simfn u (set V - {u}) t = Inr as \<longrightarrow> set as \<subseteq> set V - {u} \<Longrightarrow>
   snd ` set ius \<subseteq> set V \<Longrightarrow> set (nodes G) \<subseteq> set V \<Longrightarrow>
   set (nodes G') \<subseteq> set V"
proof (induction ius arbitrary: G)
  case Nil
  then show ?case by simp
next
  case (Cons iu ius)
  obtain i u where iu: "iu = (i, u)" by (cases iu)
  from Cons.prems(1) iu obtain as where
    as: "simfn u (set V - {u}) t = Inr as" and
    rest: "fuse_scan t simfn verbose V ius (add_edges_from G (map (\<lambda>a. (u, a)) as)) = Inr G'"
    by (auto split: sum.splits)
  from Cons.prems(2) as have sub: "set as \<subseteq> set V" by blast
  have "set (nodes (add_edges_from G (map (\<lambda>a. (u, a)) as))) \<subseteq> set V"
    using sub Cons.prems(3,4) by (auto simp: nodes_add_edges_from iu)
  with Cons.IH[OF rest Cons.prems(2)] Cons.prems(3) show ?case by simp
qed

lemma fuse_scan_nodes_mono:
  "fuse_scan t simfn verbose V ius G = Inr G' \<Longrightarrow> set (nodes G) \<subseteq> set (nodes G')"
proof (induction ius arbitrary: G)
  case Nil
  then show ?case by simp
next
  case (Cons iu ius)
  obtain i u where iu: "iu = (i, u)" by (cases iu)
  from Cons.prems(1) iu obtain as where
    rest: "fuse_scan t simfn verbose V ius (add_edges_from G (map (\<lambda>a. (u, a)) as)) = Inr G'"
    by (auto split: sum.splits)
  from Cons.IH[OF rest] show ?case by (auto simp: nodes_add_edges_from)
qed

lemma snd_enumerate: "snd ` set (List.enumerate n xs) = set xs"
  by (metis map_snd_enumerate set_map)

lemma fuse_scan_returns:
  "verbose \<noteq> Some 0 \<Longrightarrow> \<forall>u\<in>snd ` set ius. \<exists>as. simfn u (set V - {u}) t = Inr as \<Longrightarrow>
   \<exists>G'. fuse_scan t simfn verbose V ius G = Inr G'"
proof (induction ius arbitrary: G)
  case Nil
  then show ?case by simp
next
  case (Cons iu ius)
  obtain i u where iu: "iu = (i, u)" by (cases iu)
  from Cons.prems(2) iu obtain as where as: "simfn u (set V - {u}) t = Inr as" by auto
  from Cons.prems(1) obtain b where pr: "progress verbose i = Inr b"
    by (cases verbose) (auto simp: progress_def)
  from Cons.IH[of "add_edges_from G (map (\<lambda>a. (u, a)) as)"] Cons.prems
  show ?case by (simp add: iu as pr)
qed

lemma fuse_scan_verbose:
  "v1 \<noteq> Some 0 \<Longrightarrow> v2 \<noteq> Some 0 \<Longrightarrow>
   fuse_scan t simfn v1 V ius G = fuse_scan t simfn v2 V ius G"
proof (induction ius arbitrary: G)
  case Nil
  then show ?case by simp
next
  case (Cons iu ius)
  obtain i u where iu: "iu = (i, u)" by (cases iu)
  from Cons.prems obtain b1 b2 where pr: "progress v1 i = Inr b1" "progress v2 i = Inr b2"
    by (cases v1; cases v2) (auto simp: progress_def)
  show ?case using Cons.IH[OF Cons.prems]
    by (simp add: iu pr split: sum.splits)
qed

lemma union_nodes_empty: "\<forall>g\<in>set graphs. nodes g = [] \<Longrightarrow> union_nodes graphs = []"
  by (induction graphs) (simp_all add: union_nodes_def)

lemma fuse_verbose_zero:
  "union_nodes graphs \<noteq> [] \<Longrightarrow> fuse t simfn graphs (Some 0) = Inl ZeroDivisionError"
  by (cases "union_nodes graphs") (simp_all add: fuse_def Let_def enumerate_simps progress_def)

lemma fuse_verbose_irrelevant:
  "v1 \<noteq> Some 0 \<Longrightarrow> v2 \<noteq> Some 0 \<Longrightarrow> fuse t simfn graphs v1 = fuse t simfn graphs v2"
  using fuse_scan_verbose[of v1 v2] by (simp add: fuse_def Let_def)

lemma fuse_returns:
  "verbose \<noteq> Some 0 \<Longrightarrow>
   \<forall>u\<in>set (union_nodes graphs). \<exists>as. simfn u (set (union_nodes graphs) - {u}) t = Inr as \<Longrightarrow>
   \<exists>G. fuse t simfn graphs verbose = Inr G"
  by (simp add: fuse_def Let_def fuse_scan_returns snd_enumerate)

text \<open>
  C1. When \<open>fuse\<close> returns a graph \<open>G\<close>, two distinct nodes \<open>u\<close>, \<open>v\<close> of the vertex
  universe are joined by an edge of \<open>G\<close> exactly when the similarity function, called
  with \<open>u\<close> and the other nodes of the universe, returns \<open>v\<close>, or, called with \<open>v\<close>,
  returns \<open>u\<close>.
\<close>

theorem fuse_edge_iff:
  assumes "fuse t simfn graphs verbose = Inr G"
    and "u \<in> set (union_nodes graphs)" and "v \<in> set (union_nodes graphs)" and "u \<noteq> v"
  shows "has_edge G u v \<longleftrightarrow>
           (\<exists>as. simfn u (set (union_nodes graphs) - {u}) t = Inr as \<and> v \<in> set as) \<or>
           (\<exists>as. simfn v (set (union_nodes graphs) - {v}) t = Inr as \<and> u \<in> set as)"
proof -
  let ?V = "union_nodes graphs"
  from assms(1) have scan:
    "fuse_scan t simfn verbose ?V (List.enumerate 1 ?V)
       (add_edges_from (add_nodes_from [] ?V) (map (\<lambda>u. (u, u)) ?V)) = Inr G"
    by (simp add: fuse_def Let_def)
  show ?thesis
    unfolding fuse_scan_edges[OF scan] has_edge_fuse_init snd_enumerate
    using assms(2-4) by auto
qed

theorem fuse_edge_iff_witness:
  "fuse (0::nat) (\<lambda>u V t. Inr (filter (\<lambda>v. v \<in> V) [PyStr ''x'', PyStr ''y'']))
      [[(PyStr ''x'', [])], [(PyStr ''y'', [])]] None
     = Inr [(PyStr ''x'', [PyStr ''x'', PyStr ''y'']), (PyStr ''y'', [PyStr ''y'', PyStr ''x''])] \<and>
   PyStr ''x'' \<in> set (union_nodes [[(PyStr ''x'', [])], [(PyStr ''y'', [])]]) \<and>
   PyStr ''y'' \<in> set (union_nodes [[(PyStr ''x'', [])], [(PyStr ''y'', [])]]) \<and>
   PyStr ''x'' \<noteq> PyStr ''y'' \<and>
   has_edge [(PyStr ''x'', [PyStr ''x'', PyStr ''y'']), (PyStr ''y'', [PyStr ''y'', PyStr ''x''])]
     (PyStr ''x'') (PyStr ''y'')"
proof -
  let ?gs = "[[(PyStr ''x'', [])], [(PyStr ''y'', [])]]"
  let ?orc = "\<lambda>u V (t::nat). Inr (filter (\<lambda>v. v \<in> V) [PyStr ''x'', PyStr ''y'']) :: error + pynode list"
  let ?G = "[(PyStr ''x'', [PyStr ''x'', PyStr ''y'']), (PyStr ''y'', [PyStr ''y'', PyStr ''x''])]"
  have V: "union_nodes ?gs = [PyStr ''x'', PyStr ''y'']"
    by (simp add: union_nodes_def nodes_def)
  have r: "fuse 0 ?orc ?gs None = Inr ?G"
    by (simp add: fuse_def V enumerate_simps progress_def add_node_def has_node_def
        add_edge_def adj_of_def ins_def nodes_def)
  have mx: "PyStr ''x'' \<in> set (union_nodes ?gs)" and my: "PyStr ''y'' \<in> set (union_nodes ?gs)"
    by (simp_all add: V)
  have ne: "PyStr ''x'' \<noteq> PyStr ''y''" by simp
  from fuse_edge_iff[OF r mx my ne] r mx my ne show ?thesis
    by (simp add: V)
qed

lemma getattr_init_typo: "getattr (init f th) ''similarit_func'' = Inl AttributeError"
  by (simp add: getattr_def init_def)

lemma above_threshold_init: "above_threshold (init f th) u v = Inl AttributeError"
  by (simp add: above_threshold_def getattr_init_typo)

lemma above_all_init:
  "above_all (init f th) u vs = (if vs = [] then Inr [] else Inl AttributeError)"
  by (cases vs) (simp_all add: above_threshold_init)

lemma cls_fuse_scan_init:
  "cls_fuse_scan (init f th) verbose V ius G = Inr G' \<Longrightarrow> G' = G"
proof (induction ius arbitrary: G)
  case Nil
  then show ?case by simp
next
  case (Cons iu ius)
  obtain i u where iu: "iu = (i, u)" by (cases iu)
  from Cons.prems have "cls_fuse_scan (init f th) verbose V ius G = Inr G'"
    by (auto simp: iu above_all_init split: sum.splits if_splits)
  then show ?case by (rule Cons.IH)
qed

lemma cls_fuse_returns_init:
  "cls_fuse (init f th) graphs verbose = Inr G \<Longrightarrow>
   G = add_edges_from (add_nodes_from [] (union_nodes graphs))
         (map (\<lambda>u. (u, u)) (union_nodes graphs))"
  by (auto simp: cls_fuse_def Let_def dest: cls_fuse_scan_init)

lemma distinct_union_nodes [simp]: "distinct (union_nodes graphs)"
  by (simp add: union_nodes_def)

lemma cls_fuse_two_nodes:
  assumes "2 \<le> length (union_nodes graphs)"
  shows "cls_fuse (init f th) graphs verbose =
           Inl (case verbose of
                  None \<Rightarrow> AttributeError
                | Some k \<Rightarrow> if k = 0 then ZeroDivisionError
                            else if 1 mod k = 0 then ValueError else AttributeError)"
proof -
  from assms obtain u v rest where V: "union_nodes graphs = u # v # rest"
    by (cases "union_nodes graphs"; cases "tl (union_nodes graphs)") auto
  have "distinct (u # v # rest)" using distinct_union_nodes[of graphs] V by simp
  then have ne: "removeAll u (u # v # rest) \<noteq> []" by auto
  show ?thesis
    using ne
    by (cases verbose)
       (simp_all add: cls_fuse_def Let_def V enumerate_simps cls_progress_def progress_def
          above_all_init del: removeAll.simps)
qed

text \<open>
  C7. In the graph that \<open>fuse\<close> returns every node of the vertex universe has a
  self-loop, whatever the threshold and the similarity function; these are all the nodes
  of the graph when the similarity function returns candidates only, as its contract
  says. Every node of a graph that \<open>NetworkFuser.fuse\<close> returns has a self-loop too.
\<close>

theorem fuse_self_loops:
  "(fuse t simfn graphs verbose = Inr G \<longrightarrow>
      (\<forall>u\<in>set (union_nodes graphs). has_edge G u u) \<and>
      ((\<forall>u as. simfn u (set (union_nodes graphs) - {u}) t = Inr as
           \<longrightarrow> set as \<subseteq> set (union_nodes graphs) - {u})
         \<longrightarrow> (\<forall>u\<in>set (nodes G). has_edge G u u))) \<and>
   (cls_fuse (init f th) graphs' verbose' = Inr G' \<longrightarrow> (\<forall>u\<in>set (nodes G'). has_edge G' u u))"
proof (intro conjI impI)
  assume a: "fuse t simfn graphs verbose = Inr G"
  let ?V = "union_nodes graphs"
  from a have scan:
    "fuse_scan t simfn verbose ?V (List.enumerate 1 ?V)
       (add_edges_from (add_nodes_from [] ?V) (map (\<lambda>u. (u, u)) ?V)) = Inr G"
    by (simp add: fuse_def Let_def)
  show loops: "\<forall>u\<in>set ?V. has_edge G u u"
    unfolding fuse_scan_edges[OF scan] has_edge_fuse_init by auto
  assume c: "\<forall>u as. simfn u (set ?V - {u}) t = Inr as \<longrightarrow> set as \<subseteq> set ?V - {u}"
  have sub: "set (nodes G) \<subseteq> set ?V"
    using fuse_scan_nodes_sub[OF scan c] by (simp add: snd_enumerate nodes_fuse_init)
  with loops show "\<forall>u\<in>set (nodes G). has_edge G u u" by blast
next
  assume "cls_fuse (init f th) graphs' verbose' = Inr G'"
  from cls_fuse_returns_init[OF this]
  show "\<forall>u\<in>set (nodes G'). has_edge G' u u"
    by (simp add: has_edge_fuse_init nodes_fuse_init)
qed

theorem fuse_self_loops_witness:
  "fuse (0::nat) (\<lambda>u V t. Inr (filter (\<lambda>v. v \<in> V) [PyStr ''x'', PyStr ''y'']))
      [[(PyStr ''x'', [])], [(PyStr ''y'', [])]] None
     = Inr [(PyStr ''x'', [PyStr ''x'', PyStr ''y'']), (PyStr ''y'', [PyStr ''y'', PyStr ''x''])] \<and>
   has_edge [(PyStr ''x'', [PyStr ''x'', PyStr ''y'']), (PyStr ''y'', [PyStr ''y'', PyStr ''x''])]
     (PyStr ''x'') (PyStr ''x'') \<and>
   has_edge [(PyStr ''x'', [PyStr ''x'', PyStr ''y'']), (PyStr ''y'', [PyStr ''y'', PyStr ''x''])]
     (PyStr ''y'') (PyStr ''y'') \<and>
   cls_fuse (init (\<lambda>u v. 1) (95 / 100)) [[(PyStr ''x'', [])]] None
     = Inr [(PyStr ''x'', [PyStr ''x''])] \<and>
   has_edge [(PyStr ''x'', [PyStr ''x''])] (PyStr ''x'') (PyStr ''x'')"
proof -
  let ?gs = "[[(PyStr ''x'', [])], [(PyStr ''y'', [])]]"
  let ?orc = "\<lambda>u V (t::nat). Inr (filter (\<lambda>v. v \<in> V) [PyStr ''x'', PyStr ''y'']) :: error + pynode list"
  let ?G = "[(PyStr ''x'', [PyStr ''x'', PyStr ''y'']), (PyStr ''y'', [PyStr ''y'', PyStr ''x''])]"
  have V: "union_nodes ?gs = [PyStr ''x'', PyStr ''y'']"
    by (simp add: union_nodes_def nodes_def)
  have r: "fuse 0 ?orc ?gs None = Inr ?G"
    by (simp add: fuse_def V enumerate_simps progress_def add_node_def has_node_def
        add_edge_def adj_of_def ins_def nodes_def)
  have c: "\<forall>u as. ?orc u (set (union_nodes ?gs) - {u}) 0 = Inr as
              \<longrightarrow> set as \<subseteq> set (union_nodes ?gs) - {u}"
    by auto
  have ret: "cls_fuse (init (\<lambda>u v. 1) (95 / 100)) [[(PyStr ''x'', [])]] None
     = Inr [(PyStr ''x'', [PyStr ''x''])]"
    by (simp add: cls_fuse_def union_nodes_def nodes_def enumerate_simps cls_progress_def
        progress_def add_node_def has_node_def add_edge_def adj_of_def ins_def)
  from fuse_self_loops[of 0 ?orc ?gs None ?G "\<lambda>u v. 1" "95 / 100" "[[(PyStr ''x'', [])]]" None
      "[(PyStr ''x'', [PyStr ''x''])]"] r c ret
  have "(\<forall>u\<in>set (nodes ?G). has_edge ?G u u) \<and>
        (\<forall>u\<in>set (nodes [(PyStr ''x'', [PyStr ''x''])]). has_edge [(PyStr ''x'', [PyStr ''x''])] u u)"
    by blast
  then show ?thesis using r ret by (simp add: nodes_def)
qed

text \<open>
  A similarity function that breaks its contract and returns a node outside the universe
  makes that node a node of the fused graph, without a self-loop.
\<close>

lemma fuse_foreign_analog:
  "fuse (0::nat) (\<lambda>u V t. Inr [PyStr ''z'']) [[(PyStr ''x'', [])]] None
     = Inr [(PyStr ''x'', [PyStr ''x'', PyStr ''z'']), (PyStr ''z'', [PyStr ''x''])]"
  by (simp add: fuse_def union_nodes_def enumerate_simps progress_def add_node_def has_node_def
        add_edge_def adj_of_def ins_def nodes_def)

text \<open>
  C9. With no input graph, or with input graphs that have no node, \<open>fuse\<close> and
  \<open>NetworkFuser.fuse\<close> return the empty graph (no node, no edge) for every value of
  \<open>verbose\<close>.
\<close>

theorem fuse_empty_universe:
  assumes "\<forall>g\<in>set graphs. nodes g = []"
  shows "fuse t simfn graphs verbose = Inr [] \<and> cls_fuse self graphs verbose = Inr []"
  using union_nodes_empty[OF assms] by (simp add: fuse_def cls_fuse_def Let_def)

theorem fuse_empty_universe_witness:
  "fuse (0::nat) (\<lambda>u V t. Inr []) [[], [] :: pynode graph] (Some 0) = Inr [] \<and>
   cls_fuse (init (\<lambda>u v. 1) (95 / 100)) [[], []] (Some 0) = Inr []"
  using fuse_empty_universe[of "[[], [] :: pynode graph]" "0::nat" "\<lambda>u V t. Inr []" "Some 0"
      "init (\<lambda>u v. 1) (95 / 100)"]
  by simp



text \<open>
  C10, as amended. On a vertex universe of at least two nodes \<open>NetworkFuser.fuse\<close> always
  raises, at the first node scanned: \<open>ZeroDivisionError\<close> for \<open>verbose = 0\<close> (the
  default), \<open>ValueError\<close> from the malformed format string when the status line is
  printed, and otherwise \<open>AttributeError\<close> from reading \<open>self.similarit_func\<close>. A graph
  it returns has the self-loops of the universe as its only edges.
\<close>

theorem cls_fuse_never_fuses:
  "(2 \<le> length (union_nodes graphs) \<longrightarrow>
      cls_fuse (init f th) graphs verbose =
        Inl (case verbose of
               None \<Rightarrow> AttributeError
             | Some k \<Rightarrow> if k = 0 then ZeroDivisionError
                         else if 1 mod k = 0 then ValueError else AttributeError)) \<and>
   (cls_fuse (init f th) graphs' verbose' = Inr G \<longrightarrow>
      (\<forall>x y. has_edge G x y \<longleftrightarrow> x = y \<and> x \<in> set (union_nodes graphs')))"
  using cls_fuse_two_nodes[of graphs f th verbose] cls_fuse_returns_init[of f th graphs' verbose' G]
  by (auto simp: has_edge_fuse_init)

theorem cls_fuse_never_fuses_witness:
  "2 \<le> length (union_nodes [[(PyStr ''x'', [])], [(PyStr ''y'', [])]]) \<and>
   cls_fuse (init (\<lambda>u v. 1) (95 / 100)) [[(PyStr ''x'', [])], [(PyStr ''y'', [])]] None
     = Inl AttributeError \<and>
   cls_fuse (init (\<lambda>u v. 1) (95 / 100)) [[(PyStr ''x'', [])]] None
     = Inr [(PyStr ''x'', [PyStr ''x''])] \<and>
   (\<forall>x y. has_edge [(PyStr ''x'', [PyStr ''x''])] x y
       \<longleftrightarrow> x = y \<and> x \<in> set (union_nodes [[(PyStr ''x'', [])]]))"
proof -
  have len: "2 \<le> length (union_nodes [[(PyStr ''x'', [])], [(PyStr ''y'', [])]])"
    by (simp add: union_nodes_def nodes_def)
  have ret: "cls_fuse (init (\<lambda>u v. 1) (95 / 100)) [[(PyStr ''x'', [])]] None
     = Inr [(PyStr ''x'', [PyStr ''x''])]"
    by (simp add: cls_fuse_def union_nodes_def nodes_def enumerate_simps cls_progress_def
        progress_def add_node_def has_node_def add_edge_def adj_of_def ins_def)
  from cls_fuse_never_fuses[of "[[(PyStr ''x'', [])], [(PyStr ''y'', [])]]" "\<lambda>u v. 1" "95 / 100"
      None "[[(PyStr ''x'', [])]]" None "[(PyStr ''x'', [PyStr ''x''])]"] len ret
  show ?thesis by simp
qed

text \<open>
  C10 as stated fails for the default \<open>verbose = 0\<close>: on two nodes the call raises
  \<open>ZeroDivisionError\<close>, before \<open>_above_threshold\<close> is reached.
\<close>

theorem cls_fuse_default_verbose_counterexample:
  "cls_fuse (init (\<lambda>u v. 1) (95 / 100)) [[(PyStr ''x'', [])], [(PyStr ''y'', [])]] (Some 0)
     = Inl ZeroDivisionError"
  by (simp add: cls_fuse_def union_nodes_def nodes_def enumerate_simps cls_progress_def
        progress_def)

text \<open>
  C6. The claim fails on the code: with the default \<open>verbose = 0\<close> and one node in the
  universe, \<open>i % verbose\<close> raises \<open>ZeroDivisionError\<close> in both \<open>fuse\<close> and
  \<open>NetworkFuser.fuse\<close>, where \<open>verbose = None\<close> returns the fused graph.
\<close>

theorem fuse_default_verbose_fails:
  "fuse (0::nat) (\<lambda>u V t. Inr []) [[(PyStr ''x'', [])]] (Some 0) = Inl ZeroDivisionError \<and>
   fuse (0::nat) (\<lambda>u V t. Inr []) [[(PyStr ''x'', [])]] None = Inr [(PyStr ''x'', [PyStr ''x''])] \<and>
   cls_fuse (init (\<lambda>u v. 1) (95 / 100)) [[(PyStr ''x'', [])]] (Some 0) = Inl ZeroDivisionError \<and>
   cls_fuse (init (\<lambda>u v. 1) (95 / 100)) [[(PyStr ''x'', [])]] None
     = Inr [(PyStr ''x'', [PyStr ''x''])]"
  by (simp add: fuse_def cls_fuse_def union_nodes_def nodes_def enumerate_simps cls_progress_def
        progress_def add_node_def has_node_def add_edge_def adj_of_def ins_def)

section \<open>The connected components partition the nodes\<close>

lemma adj_of_mem: "v \<in> set (adj_of G u) \<Longrightarrow> \<exists>ns. (u, ns) \<in> set G \<and> v \<in> set ns"
  by (cases "map_of G u") (auto simp: adj_of_def dest: map_of_SomeD)

lemma wf_graph_edge:
  assumes "wf_graph G" and "has_edge G u v"
  shows "has_node G v \<and> has_edge G v u"
proof -
  from assms(2) obtain ns where "(u, ns) \<in> set G" "v \<in> set ns"
    unfolding has_edge_def by (blast dest: adj_of_mem)
  with assms(1) show ?thesis
    by (auto simp: wf_graph_def list_all_iff)
qed

lemma wf_graph_adj_nodes: "wf_graph G \<Longrightarrow> set (adj_of G x) \<subseteq> set (nodes G)"
  using wf_graph_edge[of G x] by (auto simp: has_edge_def has_node_def)

text \<open>The graph that \<open>fuse\<close> returns satisfies the invariant.\<close>

lemma wf_graph_iff:
  "wf_graph G \<longleftrightarrow>
     distinct (nodes G) \<and> (\<forall>x y. has_edge G x y \<longrightarrow> has_node G y \<and> has_edge G y x)"
proof
  assume wf: "wf_graph G"
  then have "distinct (nodes G)" by (simp add: wf_graph_def)
  with wf show "distinct (nodes G) \<and> (\<forall>x y. has_edge G x y \<longrightarrow> has_node G y \<and> has_edge G y x)"
    by (blast dest: wf_graph_edge)
next
  assume a: "distinct (nodes G) \<and> (\<forall>x y. has_edge G x y \<longrightarrow> has_node G y \<and> has_edge G y x)"
  then have d: "distinct (map fst G)" by (simp add: nodes_def)
  have "\<And>x ns y. (x, ns) \<in> set G \<Longrightarrow> y \<in> set ns \<Longrightarrow> has_edge G x y"
  proof -
    fix x ns y assume m: "(x, ns) \<in> set G" and y: "y \<in> set ns"
    from d m have "map_of G x = Some ns" by (rule map_of_is_SomeI)
    with y show "has_edge G x y" by (simp add: has_edge_def adj_of_def)
  qed
  with a show "wf_graph G"
    unfolding wf_graph_def list_all_iff by blast
qed

lemma wf_graph_empty: "wf_graph []"
  by (simp add: wf_graph_def)

lemma has_node_add_node:
  "has_node (add_node G n) x \<longleftrightarrow> x = n \<or> has_node G x"
  using nodes_add_node[of G n] by (auto simp: has_node_def)

lemma wf_graph_add_node: "wf_graph G \<Longrightarrow> wf_graph (add_node G n)"
  unfolding wf_graph_iff by (auto simp: distinct_add_node has_node_add_node)

lemma wf_graph_add_nodes_from: "wf_graph G \<Longrightarrow> wf_graph (add_nodes_from G ns)"
  by (induction ns arbitrary: G) (simp_all add: wf_graph_add_node)

lemma wf_graph_add_edge: "wf_graph G \<Longrightarrow> wf_graph (add_edge G u v)"
  unfolding wf_graph_iff
  by (auto simp: distinct_add_edge has_edge_add_edge has_node_def nodes_add_edge)

lemma wf_graph_add_edges_from: "wf_graph G \<Longrightarrow> wf_graph (add_edges_from G es)"
  by (induction es arbitrary: G) (auto simp: wf_graph_add_edge)

lemma wf_graph_fuse_scan:
  "fuse_scan t simfn verbose V ius G = Inr G' \<Longrightarrow> wf_graph G \<Longrightarrow> wf_graph G'"
proof (induction ius arbitrary: G)
  case Nil
  then show ?case by simp
next
  case (Cons iu ius)
  obtain i u where iu: "iu = (i, u)" by (cases iu)
  from Cons.prems(1) iu obtain as where
    rest: "fuse_scan t simfn verbose V ius (add_edges_from G (map (\<lambda>a. (u, a)) as)) = Inr G'"
    by (auto split: sum.splits)
  from Cons.IH[OF rest] Cons.prems(2) show ?case by (simp add: wf_graph_add_edges_from)
qed

lemma wf_graph_fuse: "fuse t simfn graphs verbose = Inr G \<Longrightarrow> wf_graph G"
  by (auto simp: fuse_def Let_def wf_graph_add_edges_from wf_graph_add_nodes_from wf_graph_empty
      elim!: wf_graph_fuse_scan)

lemma reach_seen_sub: "set seen \<subseteq> set (reach G ws seen)"
  by (induction G ws seen rule: reach.induct) auto

lemma reach_distinct: "distinct seen \<Longrightarrow> distinct (reach G ws seen)"
  by (induction G ws seen rule: reach.induct) auto

lemma reach_in_closed:
  "\<forall>x\<in>S. set (adj_of G x) \<subseteq> S \<Longrightarrow> set ws \<subseteq> S \<Longrightarrow> set seen \<subseteq> S
     \<Longrightarrow> set (reach G ws seen) \<subseteq> S"
proof (induction G ws seen rule: reach.induct)
  case (1 G seen)
  then show ?case by simp
next
  case (2 G v ws seen)
  show ?case
  proof (cases "v \<in> set seen \<or> \<not> has_node G v")
    case True
    with 2 show ?thesis by simp
  next
    case False
    from "2.prems" have vS: "v \<in> S" by simp
    with "2.prems"(1) have "set (adj_of G v) \<subseteq> S" by blast
    with vS "2.prems" have "set (adj_of G v @ ws) \<subseteq> S" "set (seen @ [v]) \<subseteq> S" by auto
    with "2.IH"(2)[OF False "2.prems"(1)] False show ?thesis by simp
  qed
qed

lemma reach_nodes: "set seen \<subseteq> set (nodes G) \<Longrightarrow> set (reach G ws seen) \<subseteq> set (nodes G)"
  by (induction G ws seen rule: reach.induct) (auto simp: has_node_def)

lemma reach_closed:
  assumes "\<forall>x. set (adj_of G x) \<subseteq> set (nodes G)"
  shows "\<forall>x\<in>set seen. set (adj_of G x) \<subseteq> set seen \<union> set ws \<Longrightarrow>
         \<forall>x\<in>set (reach G ws seen). set (adj_of G x) \<subseteq> set (reach G ws seen)"
  using assms
proof (induction G ws seen rule: reach.induct)
  case (1 G seen)
  then show ?case by simp
next
  case (2 G v ws seen)
  show ?case
  proof (cases "v \<in> set seen \<or> \<not> has_node G v")
    case True
    have "\<forall>x\<in>set seen. set (adj_of G x) \<subseteq> set seen \<union> set ws"
    proof
      fix x assume x: "x \<in> set seen"
      with "2.prems"(1) have "set (adj_of G x) \<subseteq> set seen \<union> set (v # ws)" by blast
      moreover have "set (adj_of G x) \<subseteq> set (nodes G)" using "2.prems"(2) by blast
      ultimately show "set (adj_of G x) \<subseteq> set seen \<union> set ws"
        using True by (auto simp: has_node_def)
    qed
    from "2.IH"(1)[OF True this "2.prems"(2)] True show ?thesis by simp
  next
    case False
    have "\<forall>x\<in>set (seen @ [v]). set (adj_of G x) \<subseteq> set (seen @ [v]) \<union> set (adj_of G v @ ws)"
      using "2.prems"(1) by auto
    from "2.IH"(2)[OF False this "2.prems"(2)] False show ?thesis by simp
  qed
qed

lemma reach_start: "has_node G v \<Longrightarrow> v \<in> set (reach G [v] [])"
  using reach_seen_sub[of "[v]" G "adj_of G v @ []"] by simp

lemma cc_scan_props:
  assumes wf: "wf_graph G"
  shows "set vs \<subseteq> set (nodes G) \<Longrightarrow> \<forall>x\<in>set seen. set (adj_of G x) \<subseteq> set seen \<Longrightarrow>
     distinct (concat (cc_scan G vs seen)) \<and>
     set (concat (cc_scan G vs seen)) \<inter> set seen = {} \<and>
     set vs \<subseteq> set seen \<union> set (concat (cc_scan G vs seen)) \<and>
     set (concat (cc_scan G vs seen)) \<subseteq> set (nodes G) \<and>
     [] \<notin> set (cc_scan G vs seen)"
proof (induction vs arbitrary: seen)
  case Nil
  then show ?case by simp
next
  case (Cons v vs)
  show ?case
  proof (cases "v \<in> set seen")
    case True
    with Cons.IH[of seen] Cons.prems show ?thesis by auto
  next
    case False
    define c where "c = reach G [v] []"
    have node: "has_node G v" using Cons.prems(1) by (simp add: has_node_def)
    have adjn: "\<forall>x. set (adj_of G x) \<subseteq> set (nodes G)"
      using wf by (simp add: wf_graph_adj_nodes)
    have vc: "v \<in> set c" unfolding c_def using node by (rule reach_start)
    have dc: "distinct c" unfolding c_def by (rule reach_distinct) simp
    have cn: "set c \<subseteq> set (nodes G)" unfolding c_def by (rule reach_nodes) simp
    have cl: "\<forall>x\<in>set c. set (adj_of G x) \<subseteq> set c"
      unfolding c_def by (rule reach_closed[OF adjn]) simp
    have compl: "\<forall>x\<in>- set seen. set (adj_of G x) \<subseteq> - set seen"
    proof (intro ballI subsetI)
      fix x y assume x: "x \<in> - set seen" and y: "y \<in> set (adj_of G x)"
      show "y \<in> - set seen"
      proof
        assume ys: "y \<in> set seen"
        from y have "has_edge G x y" by (simp add: has_edge_def)
        with wf have "has_edge G y x" by (blast dest: wf_graph_edge)
        then have "x \<in> set (adj_of G y)" by (simp add: has_edge_def)
        with Cons.prems(2) ys have "x \<in> set seen" by blast
        with x show False by simp
      qed
    qed
    have disj: "set c \<subseteq> - set seen"
      unfolding c_def by (rule reach_in_closed[OF compl]) (use False in auto)
    have cl': "\<forall>x\<in>set (seen @ c). set (adj_of G x) \<subseteq> set (seen @ c)"
    proof
      fix x assume "x \<in> set (seen @ c)"
      then consider "x \<in> set seen" | "x \<in> set c" by auto
      then show "set (adj_of G x) \<subseteq> set (seen @ c)"
      proof cases
        case 1
        with Cons.prems(2) have "set (adj_of G x) \<subseteq> set seen" by blast
        then show ?thesis by auto
      next
        case 2
        with cl have "set (adj_of G x) \<subseteq> set c" by blast
        then show ?thesis by auto
      qed
    qed
    from Cons.prems(1) have "set vs \<subseteq> set (nodes G)" by simp
    note IH = Cons.IH[OF this cl']
    have scan: "cc_scan G (v # vs) seen = c # cc_scan G vs (seen @ c)"
      using False by (simp add: Let_def c_def del: reach.simps)
    have ne: "c \<noteq> []" using vc by auto
    show ?thesis
      unfolding scan using IH dc cn disj vc ne Cons.prems(1) by auto
  qed
qed

lemma components_partition:
  assumes "wf_graph G"
  shows "distinct (concat (connected_component_subgraphs G)) \<and>
         set (concat (connected_component_subgraphs G)) = set (nodes G) \<and>
         [] \<notin> set (connected_component_subgraphs G)"
  using cc_scan_props[OF assms, of "nodes G" "[]"]
  by (auto simp: connected_component_subgraphs_def)

lemma mset_concat_sort: "mset (concat (sort_key f xss)) = mset (concat xss)"
proof -
  have "mset (concat (sort_key f xss)) = sum_mset (image_mset mset (mset (sort_key f xss)))"
    by (simp add: mset_concat flip: sum_mset_sum_list)
  also have "\<dots> = sum_mset (image_mset mset (mset xss))" by simp
  also have "\<dots> = mset (concat xss)"
    by (simp add: mset_concat flip: sum_mset_sum_list)
  finally show ?thesis .
qed

lemma sorted_components_partition:
  assumes "wf_graph G"
  shows "distinct (concat (sort_key length (connected_component_subgraphs G))) \<and>
         set (concat (sort_key length (connected_component_subgraphs G))) = set (nodes G) \<and>
         [] \<notin> set (sort_key length (connected_component_subgraphs G))"
  using components_partition[OF assms]
    mset_eq_imp_distinct_iff[OF mset_concat_sort[of length "connected_component_subgraphs G"]]
    mset_eq_setD[OF mset_concat_sort[of length "connected_component_subgraphs G"]]
  by simp

section \<open>Properties of collapsing\<close>

lemma adj_of_not_node: "\<not> has_node g u \<Longrightarrow> adj_of g u = []"
proof -
  assume "\<not> has_node g u"
  then have "map_of g u = None"
    by (simp add: has_node_def nodes_def map_of_eq_None_iff)
  then show ?thesis by (simp add: adj_of_def)
qed

lemma neighbors_adj_of: "neighbors g u = Inr ns \<Longrightarrow> adj_of g u = ns"
  by (simp add: neighbors_def adj_of_def split: option.splits)

lemma gather_graphs_step:
  assumes "contains g node = Inr b"
    and "b \<Longrightarrow> source_neighbors g node = Inr ns"
  shows "src_adj g node = (if b then ns else [])"
  using assms by (cases g) (auto simp: adj_of_not_node neighbors_adj_of)

lemma member_neighbors_Cons:
  "member_neighbors (g # gs) u = src_adj g u @ member_neighbors gs u"
  by (simp add: member_neighbors_def)

lemma member_neighbors_Nil [simp]: "member_neighbors [] u = []"
  by (simp add: member_neighbors_def)

lemma gather_graphs_ok:
  "gather_graphs component node gs acc = Inr acc' \<Longrightarrow>
   acc' = (fst acc @ filter (\<lambda>n. n \<in> set component) (member_neighbors gs node),
           snd acc @ member_neighbors gs node)"
proof (induction gs arbitrary: acc)
  case Nil
  then show ?case by simp
next
  case (Cons g gs)
  from Cons.prems obtain b where b: "contains g node = Inr b"
    by (auto split: sum.splits)
  show ?case
  proof (cases b)
    case False
    with Cons.prems b have "gather_graphs component node gs acc = Inr acc'" by simp
    from Cons.IH[OF this] gather_graphs_step[OF b, of "[]"] False
    show ?thesis by (simp add: member_neighbors_Cons)
  next
    case True
    with Cons.prems b obtain ns where ns: "source_neighbors g node = Inr ns"
      and rest: "gather_graphs component node gs
                   (fst acc @ filter (\<lambda>n. n \<in> set component) ns, snd acc @ ns) = Inr acc'"
      by (auto split: sum.splits)
    from gather_graphs_step[OF b, of ns] ns True have "src_adj g node = ns" by simp
    with Cons.IH[OF rest] show ?thesis by (simp add: member_neighbors_Cons)
  qed
qed

lemma gather_nodes_ok:
  "gather_nodes component ns gs acc = Inr acc' \<Longrightarrow>
   acc' = (fst acc @ filter (\<lambda>n. n \<in> set component) (concat (map (member_neighbors gs) ns)),
           snd acc @ concat (map (member_neighbors gs) ns))"
proof (induction ns arbitrary: acc)
  case Nil
  then show ?case by simp
next
  case (Cons node ns)
  from Cons.prems obtain acc1 where
    a1: "gather_graphs component node gs acc = Inr acc1" and
    rest: "gather_nodes component ns gs acc1 = Inr acc'"
    by (auto split: sum.splits)
  from Cons.IH[OF rest] gather_graphs_ok[OF a1] show ?case by simp
qed

lemma medges_madd_edges_from [simp]:
  "medges (madd_edges_from C es) = medges C @ es"
  by (induction es arbitrary: C) (simp_all add: madd_edge_def)

lemma attr_madd_edges_from [simp]:
  "fused_set_attr (madd_edges_from C es) = fused_set_attr C"
  by (induction es arbitrary: C) (simp_all add: madd_edge_def)

lemma add_mapped_edges_ok:
  "add_mapped_edges i n2 us C = Inr C' \<Longrightarrow>
   medges C' = medges C @ map (\<lambda>u. (i, the (map_of n2 u))) us \<and>
   (\<forall>u\<in>set us. map_of n2 u \<noteq> None) \<and> fused_set_attr C' = fused_set_attr C"
proof (induction us arbitrary: C)
  case Nil
  then show ?case by simp
next
  case (Cons u us)
  from Cons.prems obtain j where j: "map_of n2 u = Some j"
    and rest: "add_mapped_edges i n2 us (madd_edge C (i, j)) = Inr C'"
    by (auto split: option.splits)
  from Cons.IH[OF rest] j show ?case by (simp add: madd_edge_def)
qed

lemma map_of_dict_update_const:
  "map_of (dict_update d (map (\<lambda>u. (u, i)) c)) x = (if x \<in> set c then Some i else map_of d x)"
  by (induction c arbitrary: d) (simp_all add: update_conv')

lemma collapse_component_ok:
  assumes "collapse_component graphs (i, c) (C, id2, n2) = Inr (C', id2', n2')"
  shows "id2' = AList.update i (set c) id2 \<and>
         list_all is_str c \<and>
         (\<forall>x. map_of n2' x = (if x \<in> set c then Some i else map_of n2 x)) \<and>
         medges C' = medges C @ block graphs n2' (i, c) \<and>
         (\<forall>u\<in>set (nbrs graphs c). map_of n2' u \<noteq> None) \<and>
         fused_set_attr C' = fused_set_attr C"
proof -
  from assms obtain n2a where kw: "update_kwargs n2 (map (\<lambda>u. (u, i)) c) = Inr n2a"
    by (auto simp: Let_def split: sum.splits)
  then have str: "list_all is_str c" and n2a: "n2a = dict_update n2 (map (\<lambda>u. (u, i)) c)"
    by (auto simp: update_kwargs_def comp_def list_all_iff split: if_splits)
  from assms kw obtain sl nb where
    g: "gather_nodes c c graphs ([], []) = Inr (sl, nb)"
    by (auto simp: Let_def split: sum.splits)
  from assms kw g obtain C2 where
    a: "add_mapped_edges i n2a nb (madd_node C i) = Inr C2"
    by (auto simp: Let_def split: sum.splits)
  from assms kw g a have res:
    "C' = madd_edges_from C2 (replicate (length sl) (i, i))" "id2' = AList.update i (set c) id2"
    "n2' = n2a"
    by (auto simp: Let_def)
  from gather_nodes_ok[OF g] have sl: "sl = filter (\<lambda>n. n \<in> set c) (nbrs graphs c)"
    and nb: "nb = nbrs graphs c"
    by (simp_all add: nbrs_def)
  from add_mapped_edges_ok[OF a] show ?thesis
    unfolding res n2a by (simp add: str sl nb block_def madd_node_def map_of_dict_update_const)
qed

lemma update_new_key: "k \<notin> fst ` set al \<Longrightarrow> AList.update k v al = al @ [(k, v)]"
  by (induction al) auto

lemma block_cong:
  assumes "\<forall>u\<in>set (nbrs graphs (snd ic)). map_of n2 u = map_of n2' u"
  shows "block graphs n2 ic = block graphs n2' ic"
  using assms by (simp add: block_def)

lemma collapse_loop_ok:
  "collapse_loop graphs (List.enumerate n cs) (C, id2, n2) = Inr (C', id2', n2') \<Longrightarrow>
   distinct (concat cs) \<Longrightarrow> set (concat cs) \<inter> dom (map_of n2) = {} \<Longrightarrow>
   \<forall>k\<in>fst ` set id2. k < n \<Longrightarrow>
   id2' = id2 @ map (\<lambda>ic. (fst ic, set (snd ic))) (List.enumerate n cs) \<and>
   list_all is_str (concat cs) \<and>
   (\<forall>ic\<in>set (List.enumerate n cs). \<forall>x\<in>set (snd ic). map_of n2' x = Some (fst ic)) \<and>
   (\<forall>x. x \<notin> set (concat cs) \<longrightarrow> map_of n2' x = map_of n2 x) \<and>
   medges C' = medges C @ concat (map (block graphs n2') (List.enumerate n cs)) \<and>
   (\<forall>c\<in>set cs. \<forall>u\<in>set (nbrs graphs c). map_of n2' u \<noteq> None) \<and>
   fused_set_attr C' = fused_set_attr C"
proof (induction cs arbitrary: n C id2 n2)
  case Nil
  then show ?case by simp
next
  case (Cons c rest)
  from Cons.prems(1) obtain C1 id21 n21 where
    step: "collapse_component graphs (n, c) (C, id2, n2) = Inr (C1, id21, n21)" and
    loop: "collapse_loop graphs (List.enumerate (Suc n) rest) (C1, id21, n21) = Inr (C', id2', n2')"
    by (auto simp: enumerate_simps split: sum.splits)
  note ok = collapse_component_ok[OF step]
  from ok have id21: "id21 = AList.update n (set c) id2" by (rule conjunct1)
  from ok have str: "list_all is_str c" by blast
  from ok have n21: "\<And>x. map_of n21 x = (if x \<in> set c then Some n else map_of n2 x)" by blast
  from ok have e1: "medges C1 = medges C @ block graphs n21 (n, c)" by blast
  from ok have nn1: "\<forall>u\<in>set (nbrs graphs c). map_of n21 u \<noteq> None" by blast
  from ok have at1: "fused_set_attr C1 = fused_set_attr C" by blast
  from Cons.prems(4) have "n \<notin> fst ` set id2" by auto
  then have id21': "id21 = id2 @ [(n, set c)]" unfolding id21 by (rule update_new_key)
  have d: "distinct (concat rest)" and cr: "set c \<inter> set (concat rest) = {}"
    using Cons.prems(2) by auto
  have dom21: "dom (map_of n21) = set c \<union> dom (map_of n2)"
    by (auto simp: n21 dom_def)
  have disj: "set (concat rest) \<inter> dom (map_of n21) = {}"
    unfolding dom21 using cr Cons.prems(3) by auto
  have keys: "\<forall>k\<in>fst ` set id21. k < Suc n"
    unfolding id21' using Cons.prems(4) by auto
  note IH = Cons.IH[OF loop d disj keys]
  have keep: "\<And>x. x \<notin> set (concat rest) \<Longrightarrow> map_of n2' x = map_of n21 x"
    using IH by blast
  have nbr_keep: "\<forall>u\<in>set (nbrs graphs c). map_of n21 u = map_of n2' u"
  proof
    fix u assume "u \<in> set (nbrs graphs c)"
    with nn1 have "u \<in> dom (map_of n21)" by blast
    with disj have "u \<notin> set (concat rest)" by blast
    then show "map_of n21 u = map_of n2' u" by (simp add: keep)
  qed
  have blk: "block graphs n21 (n, c) = block graphs n2' (n, c)"
    by (rule block_cong) (use nbr_keep in simp)
  have c_map: "\<forall>x\<in>set c. map_of n2' x = Some n"
  proof
    fix x assume x: "x \<in> set c"
    with cr have "x \<notin> set (concat rest)" by blast
    then show "map_of n2' x = Some n" using x by (simp add: keep n21)
  qed
  have out: "\<forall>x. x \<notin> set (concat (c # rest)) \<longrightarrow> map_of n2' x = map_of n2 x"
    by (simp add: keep n21)
  have nn: "\<forall>c'\<in>set (c # rest). \<forall>u\<in>set (nbrs graphs c'). map_of n2' u \<noteq> None"
    using IH nn1 nbr_keep by auto
  show ?case
    using IH c_map out nn str
    by (simp add: enumerate_simps id21' e1 blk at1)
qed

lemma enumerate_disjoint:
  "distinct (concat cs) \<Longrightarrow> (i, c) \<in> set (List.enumerate n cs) \<Longrightarrow>
   (j, c') \<in> set (List.enumerate n cs) \<Longrightarrow> i \<noteq> j \<Longrightarrow> set c \<inter> set c' = {}"
proof (induction cs arbitrary: n)
  case Nil
  then show ?case by simp
next
  case (Cons a rest)
  have in_rest: "\<And>k x. (k, x) \<in> set (List.enumerate (Suc n) rest) \<Longrightarrow> x \<in> set rest \<and> Suc n \<le> k"
    by (auto simp: in_set_enumerate_eq)
  from Cons.prems(1) have d: "distinct (concat rest)"
    and disj: "\<And>x. x \<in> set rest \<Longrightarrow> set a \<inter> set x = {}"
    by auto
  from Cons.prems(2,3) consider
      "i = n" "c = a" "j = n" "c' = a"
    | "i = n" "c = a" "(j, c') \<in> set (List.enumerate (Suc n) rest)"
    | "(i, c) \<in> set (List.enumerate (Suc n) rest)" "j = n" "c' = a"
    | "(i, c) \<in> set (List.enumerate (Suc n) rest)" "(j, c') \<in> set (List.enumerate (Suc n) rest)"
    by (auto simp: enumerate_simps)
  then show ?case
  proof cases
    case 1
    with Cons.prems(4) show ?thesis by simp
  next
    case 2
    with in_rest[of j c'] disj[of c'] show ?thesis by simp
  next
    case 3
    with in_rest[of i c] disj[of c] show ?thesis by (simp add: Int_commute)
  next
    case 4
    with Cons.IH[OF d _ _ Cons.prems(4)] show ?thesis by blast
  qed
qed

lemma enumerate_snd_mem: "(i, c) \<in> set (List.enumerate n cs) \<Longrightarrow> c \<in> set cs"
  by (metis map_snd_enumerate set_zip_rightD zip_map_fst_snd)

lemma mem_enumerate: "c \<in> set cs \<Longrightarrow> \<exists>i. (i, c) \<in> set (List.enumerate n cs)"
proof -
  assume "c \<in> set cs"
  then have "c \<in> snd ` set (List.enumerate n cs)"
    by (metis map_snd_enumerate set_map)
  then show ?thesis by force
qed

lemma sum_card_components:
  "distinct (concat cs) \<Longrightarrow> sum_list (map (\<lambda>c. card (set c)) cs) = length (concat cs)"
  by (induction cs) (simp_all add: distinct_card)

lemma map_snd_fun_enumerate: "map (\<lambda>ic. f (snd ic)) (List.enumerate n cs) = map f cs"
  by (induction cs arbitrary: n) (simp_all add: enumerate_simps)

lemma collapse_loop_partition:
  assumes wf: "wf_graph fuser"
    and loop: "collapse_loop graphs
                 (List.enumerate 0 (sort_key length (connected_component_subgraphs fuser)))
                 (C0, [], []) = Inr (C, id2, n2)"
  shows "is_partition fuser id2 n2"
proof -
  define cs where "cs = sort_key length (connected_component_subgraphs fuser)"
  from sorted_components_partition[OF wf] have
    d: "distinct (concat cs)" and cover: "set (concat cs) = set (nodes fuser)"
    by (simp_all add: cs_def)
  from wf have dn: "distinct (nodes fuser)" by (simp add: wf_graph_def)
  note ok = collapse_loop_ok[OF loop[folded cs_def] d]
  from ok have id2: "id2 = map (\<lambda>ic. (fst ic, set (snd ic))) (List.enumerate 0 cs)" by simp
  from ok have maps: "\<forall>ic\<in>set (List.enumerate 0 cs). \<forall>x\<in>set (snd ic). map_of n2 x = Some (fst ic)"
    by simp
  from ok have out: "\<forall>x. x \<notin> set (concat cs) \<longrightarrow> map_of n2 x = None" by simp
  have keys: "distinct (map fst id2)" by (simp add: id2 comp_def)
  have "sum_list (map (\<lambda>(i, S). card S) id2) = sum_list (map (\<lambda>c. card (set c)) cs)"
    using map_snd_fun_enumerate[of "\<lambda>c. card (set c)" 0 cs] by (simp add: id2 comp_def)
  also have "\<dots> = length (concat cs)" using d by (rule sum_card_components)
  also have "\<dots> = card (set (concat cs))" using distinct_card[OF d] by (simp del: set_concat)
  also have "\<dots> = length (nodes fuser)" using distinct_card[OF dn] by (simp add: cover del: set_concat)
  finally have total: "sum_list (map (\<lambda>(i, S). card S) id2) = length (nodes fuser)" .
  have "map snd id2 = map set cs"
    using map_snd_fun_enumerate[of set 0 cs] by (simp add: id2 comp_def)
  then have "set (map snd id2) = set (map set cs)" by simp
  then have "snd ` set id2 = set ` set cs" by simp
  then have un: "\<Union> (snd ` set id2) = set (nodes fuser)" using cover by simp
  have id2_mem: "\<And>i S. (i, S) \<in> set id2 \<Longrightarrow> \<exists>c. (i, c) \<in> set (List.enumerate 0 cs) \<and> S = set c"
    unfolding id2 by auto
  have disj: "\<forall>(i, S)\<in>set id2. \<forall>(j, T)\<in>set id2. i \<noteq> j \<longrightarrow> S \<inter> T = {}"
  proof (intro ballI, clarify)
    fix i S j T assume a: "(i, S) \<in> set id2" "(j, T) \<in> set id2" "i \<noteq> j"
    from id2_mem[OF a(1)] obtain c where c: "(i, c) \<in> set (List.enumerate 0 cs)" "S = set c" by blast
    from id2_mem[OF a(2)] obtain c' where c': "(j, c') \<in> set (List.enumerate 0 cs)" "T = set c'" by blast
    from enumerate_disjoint[OF d c(1) c'(1) a(3)] show "S \<inter> T = {}" by (simp add: c c')
  qed
  have dom: "fst ` set n2 = set (nodes fuser)"
  proof -
    have "dom (map_of n2) = set (concat cs)"
    proof (intro equalityI subsetI)
      fix x assume "x \<in> dom (map_of n2)"
      with out show "x \<in> set (concat cs)" by auto
    next
      fix x assume "x \<in> set (concat cs)"
      then obtain c where c: "c \<in> set cs" "x \<in> set c" by auto
      from mem_enumerate[OF c(1), of 0] obtain i where "(i, c) \<in> set (List.enumerate 0 cs)" ..
      with maps c(2) have "map_of n2 x = Some i" by force
      then show "x \<in> dom (map_of n2)" by blast
    qed
    then show ?thesis using cover by (simp add: dom_map_of_conv_image_fst)
  qed
  have mem: "\<forall>(i, S)\<in>set id2. \<forall>u\<in>S. map_of n2 u = Some i"
  proof (intro ballI, clarify)
    fix i S u assume a: "(i, S) \<in> set id2" "u \<in> S"
    from id2_mem[OF a(1)] obtain c where c: "(i, c) \<in> set (List.enumerate 0 cs)" "S = set c" by blast
    with maps a(2) show "map_of n2 u = Some i" by force
  qed
  show ?thesis
    unfolding is_partition_def by (intro conjI keys total un disj dom mem)
qed

lemma collapse_fused_graph_loop:
  "collapse_fused_graph dflt fuser graphs collapsed_arg = (Inr (C, id2, n2), dflt') \<Longrightarrow>
   collapse_loop graphs
     (List.enumerate 0 (sort_key length (connected_component_subgraphs fuser)))
     (case collapsed_arg of None \<Rightarrow> dflt | Some C0 \<Rightarrow> C0, [], []) = Inr (C, id2, n2)"
  by (auto simp: collapse_fused_graph_def Let_def split: sum.splits prod.splits)

lemma cls_collapse_loop:
  "cls_collapse dflt fuser graphs collapsed_arg = (Inr (C', n2), dflt') \<Longrightarrow>
   \<exists>C id2. collapse_loop graphs
     (List.enumerate 0 (sort_key length (connected_component_subgraphs fuser)))
     (case collapsed_arg of None \<Rightarrow> dflt | Some C0 \<Rightarrow> C0, [], []) = Inr (C, id2, n2) \<and>
     C' = set_node_attributes C id2"
  by (auto simp: cls_collapse_def Let_def split: sum.splits prod.splits if_splits)

lemma dict_update_append:
  "distinct (map fst kvs) \<Longrightarrow> fst ` set d \<inter> fst ` set kvs = {} \<Longrightarrow> dict_update d kvs = d @ kvs"
proof (induction kvs arbitrary: d)
  case Nil
  then show ?case by simp
next
  case (Cons kv kvs)
  obtain k v where kv: "kv = (k, v)" by (cases kv)
  from Cons.prems have "k \<notin> fst ` set d" by (auto simp: kv)
  then have u: "AList.update k v d = d @ [(k, v)]" by (rule update_new_key)
  from Cons.prems have "distinct (map fst kvs)" "fst ` set (d @ [(k, v)]) \<inter> fst ` set kvs = {}"
    by (auto simp: kv)
  from Cons.IH[OF this] show ?case by (simp add: kv u)
qed

text \<open>
  When \<open>collapse_fused_graph\<close> returns on a fused graph (an \<open>nx.Graph\<close>), its two maps
  partition the node set of the fused graph. \<open>NetworkFuser.collapse\<close> hands the
  component-to-members map out as the node attribute \<open>'fused_set'\<close> of the graph it
  populates: that attribute and the member-to-component map partition the node set when
  the graph carried no such attribute before the call.
\<close>

lemma collapse_partition_fresh:
  "(wf_graph fuser \<and>
    collapse_fused_graph dflt fuser graphs collapsed_arg
      = (Inr (C, id2fused_set, node2fuse_id), dflt')
      \<longrightarrow> is_partition fuser id2fused_set node2fuse_id) \<and>
   (wf_graph fuser2 \<and>
    cls_collapse dflt2 fuser2 graphs2 collapsed_arg2 = (Inr (C2, node2fuse_id2), dflt2') \<and>
    fused_set_attr (case collapsed_arg2 of None \<Rightarrow> dflt2 | Some C0 \<Rightarrow> C0) = []
      \<longrightarrow> is_partition fuser2 (fused_set_attr C2) node2fuse_id2)"
proof (intro conjI impI)
  assume a: "wf_graph fuser \<and>
    collapse_fused_graph dflt fuser graphs collapsed_arg
      = (Inr (C, id2fused_set, node2fuse_id), dflt')"
  then show "is_partition fuser id2fused_set node2fuse_id"
    using collapse_loop_partition[OF _ collapse_fused_graph_loop] by blast
next
  assume a: "wf_graph fuser2 \<and>
    cls_collapse dflt2 fuser2 graphs2 collapsed_arg2 = (Inr (C2, node2fuse_id2), dflt2') \<and>
    fused_set_attr (case collapsed_arg2 of None \<Rightarrow> dflt2 | Some C0 \<Rightarrow> C0) = []"
  let ?C0 = "case collapsed_arg2 of None \<Rightarrow> dflt2 | Some C0 \<Rightarrow> C0"
  from a cls_collapse_loop[of dflt2 fuser2 graphs2 collapsed_arg2 C2 node2fuse_id2 dflt2']
  obtain C id2 where
    loop: "collapse_loop graphs2
       (List.enumerate 0 (sort_key length (connected_component_subgraphs fuser2)))
       (?C0, [], []) = Inr (C, id2, node2fuse_id2)" and
    C2: "C2 = set_node_attributes C id2"
    by blast
  from a have wf: "wf_graph fuser2" by simp
  have part: "is_partition fuser2 id2 node2fuse_id2"
    using wf loop by (rule collapse_loop_partition)
  then have dk: "distinct (map fst id2)" by (simp add: is_partition_def)
  from sorted_components_partition[OF wf]
  have d: "distinct (concat (sort_key length (connected_component_subgraphs fuser2)))" by simp
  from collapse_loop_ok[OF loop d] have "fused_set_attr C = fused_set_attr ?C0" by simp
  with a have "fused_set_attr C = []" by simp
  then have "fused_set_attr C2 = id2"
    using dict_update_append[OF dk, of "[]"] by (simp add: C2 set_node_attributes_def)
  with part show "is_partition fuser2 (fused_set_attr C2) node2fuse_id2" by simp
qed

text \<open>
  An instance with two components, \<open>{c}\<close> (id 0) and \<open>{a, b}\<close> (id 1), and the source
  edge \<open>a - b\<close>.
\<close>

lemma collapse_partition_example:
  "is_partition
       [(PyStr ''a'', [PyStr ''a'', PyStr ''b'']), (PyStr ''b'', [PyStr ''b'', PyStr ''a'']),
        (PyStr ''c'', [PyStr ''c''])]
       [(0, {PyStr ''c''}), (1, {PyStr ''a'', PyStr ''b''})]
       [(PyStr ''c'', 0), (PyStr ''a'', 1), (PyStr ''b'', 1)] \<and>
   cls_collapse empty_mgraph
       [(PyStr ''a'', [PyStr ''a'', PyStr ''b'']), (PyStr ''b'', [PyStr ''b'', PyStr ''a'']),
        (PyStr ''c'', [PyStr ''c''])]
       [NxGraph [(PyStr ''a'', [PyStr ''b'']), (PyStr ''b'', [PyStr ''a''])]] None
     = (Inr (\<lparr>mnodes = [0, 1], medges = [(1, 1), (1, 1), (1, 1), (1, 1)],
               fused_set_attr = [(0, {PyStr ''c''}), (1, {PyStr ''a'', PyStr ''b''})]\<rparr>,
             [(PyStr ''c'', 0), (PyStr ''a'', 1), (PyStr ''b'', 1)]),
        \<lparr>mnodes = [0, 1], medges = [(1, 1), (1, 1), (1, 1), (1, 1)],
           fused_set_attr = [(0, {PyStr ''c''}), (1, {PyStr ''a'', PyStr ''b''})]\<rparr>)"
proof -
  let ?F = "[(PyStr ''a'', [PyStr ''a'', PyStr ''b'']), (PyStr ''b'', [PyStr ''b'', PyStr ''a'']),
             (PyStr ''c'', [PyStr ''c''])]"
  let ?gs = "[NxGraph [(PyStr ''a'', [PyStr ''b'']), (PyStr ''b'', [PyStr ''a''])]]"
  let ?C = "\<lparr>mnodes = [0, 1], medges = [(1, 1), (1, 1), (1, 1), (1, 1)], fused_set_attr = []\<rparr>"
  let ?C' = "\<lparr>mnodes = [0, 1], medges = [(1, 1), (1, 1), (1, 1), (1, 1)],
               fused_set_attr = [(0, {PyStr ''c''}), (1, {PyStr ''a'', PyStr ''b''})]\<rparr>"
  let ?id2 = "[(0::nat, {PyStr ''c''}), (1, {PyStr ''a'', PyStr ''b''})]"
  let ?n2 = "[(PyStr ''c'', 0::nat), (PyStr ''a'', 1), (PyStr ''b'', 1)]"
  have wf: "wf_graph ?F" by code_simp
  have r: "collapse_fused_graph empty_mgraph ?F ?gs None = (Inr (?C, ?id2, ?n2), ?C)"
    by code_simp
  have r': "cls_collapse empty_mgraph ?F ?gs None = (Inr (?C', ?n2), ?C')"
    by code_simp
  have e: "fused_set_attr (case None of None \<Rightarrow> empty_mgraph | Some C0 \<Rightarrow> C0) = []"
    by (simp add: empty_mgraph_def)
  from collapse_partition_fresh[of ?F empty_mgraph ?gs None ?C ?id2 ?n2 ?C
      ?F empty_mgraph ?gs None ?C' ?n2 ?C'] wf r r' e
  show ?thesis by simp
qed

text \<open>
  C8. The claim holds for \<open>collapse_fused_graph\<close> and fails on \<open>NetworkFuser.collapse\<close>:
  its component-to-members map lives on the shared default graph. A first call on a fused
  graph with the components \<open>{c}\<close> and \<open>{b}\<close> leaves the attribute of node 1 there; a
  second call on the fused graph with the single node \<open>c\<close> returns the member sets
  \<open>{c}\<close> and \<open>{b}\<close>, two members in total for one node.
\<close>

theorem cls_collapse_stale_fused_set:
  "cls_collapse empty_mgraph
       [(PyStr ''c'', [PyStr ''c'']), (PyStr ''b'', [PyStr ''b''])] [] None
     = (Inr (\<lparr>mnodes = [0, 1], medges = [],
               fused_set_attr = [(0, {PyStr ''c''}), (1, {PyStr ''b''})]\<rparr>,
             [(PyStr ''c'', 0), (PyStr ''b'', 1)]),
        \<lparr>mnodes = [0, 1], medges = [],
           fused_set_attr = [(0, {PyStr ''c''}), (1, {PyStr ''b''})]\<rparr>) \<and>
   cls_collapse
       \<lparr>mnodes = [0, 1], medges = [], fused_set_attr = [(0, {PyStr ''c''}), (1, {PyStr ''b''})]\<rparr>
       [(PyStr ''c'', [PyStr ''c''])] [] None
     = (Inr (\<lparr>mnodes = [0, 1], medges = [],
               fused_set_attr = [(0, {PyStr ''c''}), (1, {PyStr ''b''})]\<rparr>,
             [(PyStr ''c'', 0)]),
        \<lparr>mnodes = [0, 1], medges = [],
           fused_set_attr = [(0, {PyStr ''c''}), (1, {PyStr ''b''})]\<rparr>) \<and>
   sum_list (map (\<lambda>(i, S). card S) [(0::nat, {PyStr ''c''}), (1, {PyStr ''b''})]) = 2 \<and>
   length (nodes [(PyStr ''c'', [PyStr ''c''])]) = 1"
proof -
  have first: "cls_collapse empty_mgraph
       [(PyStr ''c'', [PyStr ''c'']), (PyStr ''b'', [PyStr ''b''])] [] None
     = (Inr (\<lparr>mnodes = [0, 1], medges = [],
               fused_set_attr = [(0, {PyStr ''c''}), (1, {PyStr ''b''})]\<rparr>,
             [(PyStr ''c'', 0), (PyStr ''b'', 1)]),
        \<lparr>mnodes = [0, 1], medges = [],
           fused_set_attr = [(0, {PyStr ''c''}), (1, {PyStr ''b''})]\<rparr>)"
    by code_simp
  have second: "cls_collapse
       \<lparr>mnodes = [0, 1], medges = [], fused_set_attr = [(0, {PyStr ''c''}), (1, {PyStr ''b''})]\<rparr>
       [(PyStr ''c'', [PyStr ''c''])] [] None
     = (Inr (\<lparr>mnodes = [0, 1], medges = [],
               fused_set_attr = [(0, {PyStr ''c''}), (1, {PyStr ''b''})]\<rparr>,
             [(PyStr ''c'', 0)]),
        \<lparr>mnodes = [0, 1], medges = [],
           fused_set_attr = [(0, {PyStr ''c''}), (1, {PyStr ''b''})]\<rparr>)"
    by code_simp
  show ?thesis using first second by (simp add: nodes_def)
qed

lemma count_list_map_filter:
  "count_list (map f xs) y = length (filter (\<lambda>x. f x = y) xs)"
  by (induction xs) simp_all

lemma count_list_replicate_eq:
  "count_list (replicate n x) y = (if x = y then n else 0)"
  by (induction n) auto

lemma count_block_other: "fst ic \<noteq> i \<Longrightarrow> count_list (block graphs n2 ic) (i, j) = 0"
  by (simp add: block_def count_list_map_filter count_list_replicate_eq)

lemma count_block_same:
  assumes "\<forall>u\<in>set (nbrs graphs c). map_of n2 u \<noteq> None"
  shows "count_list (block graphs n2 (i, c)) (i, j) =
           length (filter (\<lambda>u. map_of n2 u = Some j) (nbrs graphs c)) +
           (if j = i then length (filter (\<lambda>n. n \<in> set c) (nbrs graphs c)) else 0)"
proof -
  have "filter (\<lambda>u. the (map_of n2 u) = j) (nbrs graphs c)
          = filter (\<lambda>u. map_of n2 u = Some j) (nbrs graphs c)"
    using assms by (intro filter_cong) auto
  then show ?thesis
    by (auto simp: block_def count_list_map_filter count_list_replicate_eq)
qed

lemma sum_list_single:
  fixes f :: "'a \<times> 'b \<Rightarrow> nat"
  shows "distinct (map fst xs) \<Longrightarrow> (i, c) \<in> set xs \<Longrightarrow>
         \<forall>ic\<in>set xs. fst ic \<noteq> i \<longrightarrow> f ic = 0 \<Longrightarrow> sum_list (map f xs) = f (i, c)"
proof (induction xs)
  case Nil
  then show ?case by simp
next
  case (Cons x xs)
  show ?case
  proof (cases "x = (i, c)")
    case True
    with Cons.prems(1) have "i \<notin> fst ` set xs" by simp
    then have "\<forall>ic\<in>set xs. fst ic \<noteq> i" by auto
    with Cons.prems(3) have "\<forall>ic\<in>set xs. f ic = 0" by simp
    then have "sum_list (map f xs) = 0" by simp
    with True show ?thesis by simp
  next
    case False
    with Cons.prems(2) have mem: "(i, c) \<in> set xs" by simp
    then have "i \<in> fst ` set xs" by force
    with Cons.prems(1) have "fst x \<noteq> i" by auto
    with Cons.prems(3) have "f x = 0" by simp
    moreover from Cons.IH[OF _ mem] Cons.prems have "sum_list (map f xs) = f (i, c)" by simp
    ultimately show ?thesis by simp
  qed
qed

lemma length_filter_nbrs:
  "distinct c \<Longrightarrow>
   length (filter P (nbrs graphs c)) = (\<Sum>u\<in>set c. length (filter P (member_neighbors graphs u)))"
proof -
  assume d: "distinct c"
  have "length (filter P (nbrs graphs c))
          = sum_list (map (\<lambda>u. length (filter P (member_neighbors graphs u))) c)"
    by (simp add: nbrs_def filter_concat length_concat comp_def)
  also have "\<dots> = (\<Sum>u\<in>set c. length (filter P (member_neighbors graphs u)))"
    using d by (rule sum_list_distinct_conv_sum_set)
  finally show ?thesis .
qed

lemma distinct_concat_mem: "distinct (concat cs) \<Longrightarrow> c \<in> set cs \<Longrightarrow> distinct c"
  by (induction cs) auto

lemma collapse_loop_count:
  assumes wf: "wf_graph fuser"
    and loop: "collapse_loop graphs
                 (List.enumerate 0 (sort_key length (connected_component_subgraphs fuser)))
                 (C0, [], []) = Inr (C, id2, n2)"
    and S: "map_of id2 i = Some S"
  shows "count_list (medges C) (i, j) =
           count_list (medges C0) (i, j) +
           (\<Sum>u\<in>S. length (filter (\<lambda>n. map_of n2 n = Some j) (member_neighbors graphs u))) +
           (if j = i
            then (\<Sum>u\<in>S. length (filter (\<lambda>n. n \<in> S) (member_neighbors graphs u)))
            else 0)"
proof -
  define cs where "cs = sort_key length (connected_component_subgraphs fuser)"
  from sorted_components_partition[OF wf] have d: "distinct (concat cs)"
    by (simp add: cs_def)
  note ok = collapse_loop_ok[OF loop[folded cs_def] d]
  from ok have id2: "id2 = map (\<lambda>ic. (fst ic, set (snd ic))) (List.enumerate 0 cs)" by simp
  from ok have edges: "medges C = medges C0 @ concat (map (block graphs n2) (List.enumerate 0 cs))"
    by simp
  from ok have nn: "\<forall>c\<in>set cs. \<forall>u\<in>set (nbrs graphs c). map_of n2 u \<noteq> None" by simp
  from S have "(i, S) \<in> set id2" by (rule map_of_SomeD)
  then obtain c where ic: "(i, c) \<in> set (List.enumerate 0 cs)" and Sc: "S = set c"
    unfolding id2 by auto
  from ic have cmem: "c \<in> set cs" by (rule enumerate_snd_mem)
  with d have dc: "distinct c" by (rule distinct_concat_mem)
  have "count_list (concat (map (block graphs n2) (List.enumerate 0 cs))) (i, j)
          = sum_list (map (\<lambda>ic. count_list (block graphs n2 ic) (i, j)) (List.enumerate 0 cs))"
    by (simp add: count_list_concat comp_def)
  also have "\<dots> = count_list (block graphs n2 (i, c)) (i, j)"
    by (rule sum_list_single[OF _ ic]) (simp_all add: count_block_other)
  also have "\<dots> = length (filter (\<lambda>u. map_of n2 u = Some j) (nbrs graphs c)) +
           (if j = i then length (filter (\<lambda>n. n \<in> set c) (nbrs graphs c)) else 0)"
    using nn cmem by (intro count_block_same) blast
  finally show ?thesis
    by (simp add: edges Sc length_filter_nbrs[OF dc])
qed

lemma collapse_loop_member:
  assumes wf: "wf_graph fuser"
    and loop: "collapse_loop graphs
                 (List.enumerate 0 (sort_key length (connected_component_subgraphs fuser)))
                 (C0, [], []) = Inr (C, id2, n2)"
    and S: "map_of id2 i = Some S"
  shows "n \<in> S \<longleftrightarrow> map_of n2 n = Some i"
proof -
  from collapse_loop_partition[OF wf loop] have p: "is_partition fuser id2 n2" .
  from S have iS: "(i, S) \<in> set id2" by (rule map_of_SomeD)
  show ?thesis
  proof
    assume "n \<in> S"
    with p iS show "map_of n2 n = Some i" unfolding is_partition_def by blast
  next
    assume n: "map_of n2 n = Some i"
    then have "n \<in> fst ` set n2" by (force dest: map_of_SomeD)
    with p have "n \<in> \<Union> (snd ` set id2)" unfolding is_partition_def by simp
    then obtain k T where kT: "(k, T) \<in> set id2" "n \<in> T" by force
    with p have "map_of n2 n = Some k" unfolding is_partition_def by blast
    with n have "k = i" by simp
    with p kT(1) iS have "T = S" unfolding is_partition_def
      by (metis S map_of_is_SomeI option.inject)
    with kT(2) show "n \<in> S" by simp
  qed
qed

text \<open>
  C2, as amended. When \<open>collapse\<close> returns, every adjacency entry of a source graph (a
  member \<open>u\<close> of component \<open>i\<close> with one neighbour \<open>n\<close> of \<open>u\<close> in a source graph
  that holds \<open>u\<close>) contributes exactly one collapsed edge from \<open>i\<close> to the component id
  \<open>j\<close> of \<open>n\<close>, and one self-loop more when \<open>n\<close> lies in component \<open>i\<close> itself.
  Multiplicity is kept: the number of edges \<open>(i, j)\<close> the call adds is the number of
  such entries, doubled for \<open>j = i\<close>.
\<close>

theorem collapse_edge_multiplicity:
  assumes "wf_graph fuser"
    and "collapse_fused_graph dflt fuser graphs collapsed_arg
           = (Inr (C, id2fused_set, node2fuse_id), dflt')"
    and "map_of id2fused_set i = Some S"
  shows "count_list (medges C) (i, j) =
           count_list (medges (case collapsed_arg of None \<Rightarrow> dflt | Some C0 \<Rightarrow> C0)) (i, j) +
           (if j = i then 2 else 1) *
             (\<Sum>u\<in>S. length (filter (\<lambda>n. map_of node2fuse_id n = Some j)
                                 (member_neighbors graphs u)))"
proof -
  note loop = collapse_fused_graph_loop[OF assms(2)]
  have "\<And>n. (n \<in> S) = (map_of node2fuse_id n = Some i)"
    by (rule collapse_loop_member[OF assms(1) loop assms(3)])
  then have "(\<lambda>n. n \<in> S) = (\<lambda>n. map_of node2fuse_id n = Some i)" by (rule ext)
  with collapse_loop_count[OF assms(1) loop assms(3), of j] show ?thesis by simp
qed

text \<open>
  The witness has a fused graph with the components \<open>{c}\<close> (id 0) and \<open>{a, b}\<close>
  (id 1) and, as source, the \<open>nx.DiGraph\<close> with the edges \<open>a \<rightarrow> b\<close>, \<open>b \<rightarrow> a\<close> and
  \<open>a \<rightarrow> c\<close>: the entry \<open>c\<close> at \<open>a\<close> gives the one edge \<open>(1, 0)\<close>, the two internal
  entries give four self-loops at 1.
\<close>

theorem collapse_edge_multiplicity_witness:
  "wf_graph [(PyStr ''a'', [PyStr ''a'', PyStr ''b'']), (PyStr ''b'', [PyStr ''b'', PyStr ''a'']),
             (PyStr ''c'', [PyStr ''c''])] \<and>
   collapse_fused_graph empty_mgraph
       [(PyStr ''a'', [PyStr ''a'', PyStr ''b'']), (PyStr ''b'', [PyStr ''b'', PyStr ''a'']),
        (PyStr ''c'', [PyStr ''c''])]
       [NxGraph [(PyStr ''a'', [PyStr ''b'', PyStr ''c'']), (PyStr ''b'', [PyStr ''a'']),
                 (PyStr ''c'', [])]] None
     = (Inr (\<lparr>mnodes = [0, 1], medges = [(1, 1), (1, 0), (1, 1), (1, 1), (1, 1)],
               fused_set_attr = []\<rparr>,
             [(0, {PyStr ''c''}), (1, {PyStr ''a'', PyStr ''b''})],
             [(PyStr ''c'', 0), (PyStr ''a'', 1), (PyStr ''b'', 1)]),
        \<lparr>mnodes = [0, 1], medges = [(1, 1), (1, 0), (1, 1), (1, 1), (1, 1)],
           fused_set_attr = []\<rparr>) \<and>
   map_of [(0, {PyStr ''c''}), (1::nat, {PyStr ''a'', PyStr ''b''})] 1
     = Some {PyStr ''a'', PyStr ''b''} \<and>
   count_list [(1, 1), (1, 0), (1, 1), (1, 1), (1::nat, 1::nat)] (1, 0) = 1 \<and>
   count_list [(1, 1), (1, 0), (1, 1), (1, 1), (1::nat, 1::nat)] (1, 1) = 4"
proof -
  let ?F = "[(PyStr ''a'', [PyStr ''a'', PyStr ''b'']), (PyStr ''b'', [PyStr ''b'', PyStr ''a'']),
             (PyStr ''c'', [PyStr ''c''])]"
  let ?g = "[NxGraph [(PyStr ''a'', [PyStr ''b'', PyStr ''c'']), (PyStr ''b'', [PyStr ''a'']),
                 (PyStr ''c'', [])]]"
  let ?C = "\<lparr>mnodes = [0, 1], medges = [(1, 1), (1, 0), (1, 1), (1, 1), (1, 1)],
               fused_set_attr = []\<rparr>"
  let ?id2 = "[(0, {PyStr ''c''}), (1::nat, {PyStr ''a'', PyStr ''b''})]"
  let ?n2 = "[(PyStr ''c'', 0), (PyStr ''a'', 1), (PyStr ''b'', 1::nat)]"
  have wf: "wf_graph ?F" by code_simp
  have r: "collapse_fused_graph empty_mgraph ?F ?g None = (Inr (?C, ?id2, ?n2), ?C)"
    by code_simp
  have S: "map_of ?id2 1 = Some {PyStr ''a'', PyStr ''b''}" by simp
  from collapse_edge_multiplicity[OF wf r S, of 0] collapse_edge_multiplicity[OF wf r S, of 1]
    wf r S
  show ?thesis by (simp add: empty_mgraph_def)
qed

text \<open>
  C2 as stated fails: one undirected source edge \<open>a - b\<close> inside one component is an
  adjacency entry at \<open>a\<close> and one at \<open>b\<close>, each drawn by both passes, so it
  contributes four collapsed edges, not one.
\<close>

theorem collapse_one_edge_counterexample:
  "collapse_fused_graph empty_mgraph
       [(PyStr ''a'', [PyStr ''a'', PyStr ''b'']), (PyStr ''b'', [PyStr ''b'', PyStr ''a''])]
       [NxGraph [(PyStr ''a'', [PyStr ''b'']), (PyStr ''b'', [PyStr ''a''])]] None
     = (Inr (\<lparr>mnodes = [0], medges = [(0, 0), (0, 0), (0, 0), (0, 0)], fused_set_attr = []\<rparr>,
             [(0, {PyStr ''a'', PyStr ''b''})],
             [(PyStr ''a'', 0), (PyStr ''b'', 0)]),
        \<lparr>mnodes = [0], medges = [(0, 0), (0, 0), (0, 0), (0, 0)], fused_set_attr = []\<rparr>)"
  by code_simp

text \<open>
  C3, as amended. When \<open>collapse\<close> returns, every adjacency entry whose node and
  neighbour lie in the same component \<open>i\<close> surfaces as exactly two self-loops at \<open>i\<close>:
  one from the pass over the gathered neighbours, one from the tally of internal
  neighbours. An original self-loop is one entry (two self-loops); an original undirected
  edge between two distinct nodes is two entries (four self-loops).
\<close>

theorem collapse_internal_self_loops:
  assumes "wf_graph fuser"
    and "collapse_fused_graph dflt fuser graphs collapsed_arg
           = (Inr (C, id2fused_set, node2fuse_id), dflt')"
    and "map_of id2fused_set i = Some S"
  shows "count_list (medges C) (i, i) =
           count_list (medges (case collapsed_arg of None \<Rightarrow> dflt | Some C0 \<Rightarrow> C0)) (i, i) +
           (\<Sum>u\<in>S. length (filter (\<lambda>n. n \<in> S) (member_neighbors graphs u))) +
           (\<Sum>u\<in>S. length (filter (\<lambda>n. n \<in> S) (member_neighbors graphs u)))"
proof -
  note loop = collapse_fused_graph_loop[OF assms(2)]
  have "\<And>n. (n \<in> S) = (map_of node2fuse_id n = Some i)"
    by (rule collapse_loop_member[OF assms(1) loop assms(3)])
  then have "(\<lambda>n. n \<in> S) = (\<lambda>n. map_of node2fuse_id n = Some i)" by (rule ext)
  with collapse_loop_count[OF assms(1) loop assms(3), of i] show ?thesis by simp
qed

theorem collapse_internal_self_loops_witness:
  "wf_graph [(PyStr ''a'', [PyStr ''a''])] \<and>
   collapse_fused_graph empty_mgraph [(PyStr ''a'', [PyStr ''a''])]
       [NxGraph [(PyStr ''a'', [PyStr ''a''])]] None
     = (Inr (\<lparr>mnodes = [0], medges = [(0, 0), (0, 0)], fused_set_attr = []\<rparr>,
             [(0, {PyStr ''a''})], [(PyStr ''a'', 0)]),
        \<lparr>mnodes = [0], medges = [(0, 0), (0, 0)], fused_set_attr = []\<rparr>) \<and>
   map_of [(0::nat, {PyStr ''a''})] 0 = Some {PyStr ''a''} \<and>
   count_list [(0, 0), (0::nat, 0::nat)] (0, 0) = 2"
proof -
  let ?F = "[(PyStr ''a'', [PyStr ''a''])]"
  let ?C = "\<lparr>mnodes = [0], medges = [(0, 0), (0, 0)], fused_set_attr = []\<rparr>"
  have wf: "wf_graph ?F" by code_simp
  have r: "collapse_fused_graph empty_mgraph ?F [NxGraph ?F] None
             = (Inr (?C, [(0, {PyStr ''a''})], [(PyStr ''a'', 0)]), ?C)"
    by code_simp
  have S: "map_of [(0::nat, {PyStr ''a''})] 0 = Some {PyStr ''a''}" by simp
  from collapse_internal_self_loops[OF wf r S] wf r S
  show ?thesis by (simp add: empty_mgraph_def)
qed

text \<open>
  C3 as stated fails: the two source edges \<open>a - b\<close> and \<open>c - d\<close>, all four nodes in
  one component, surface as eight self-loops, not four.
\<close>

theorem collapse_two_edges_counterexample:
  "collapse_fused_graph empty_mgraph
       [(PyStr ''a'', [PyStr ''a'', PyStr ''b'', PyStr ''c'', PyStr ''d'']),
        (PyStr ''b'', [PyStr ''b'', PyStr ''a'', PyStr ''c'', PyStr ''d'']),
        (PyStr ''c'', [PyStr ''c'', PyStr ''a'', PyStr ''b'', PyStr ''d'']),
        (PyStr ''d'', [PyStr ''d'', PyStr ''a'', PyStr ''b'', PyStr ''c''])]
       [NxGraph [(PyStr ''a'', [PyStr ''b'']), (PyStr ''b'', [PyStr ''a''])],
        NxGraph [(PyStr ''c'', [PyStr ''d'']), (PyStr ''d'', [PyStr ''c''])]] None
     = (Inr (\<lparr>mnodes = [0],
               medges = [(0, 0), (0, 0), (0, 0), (0, 0), (0, 0), (0, 0), (0, 0), (0, 0)],
               fused_set_attr = []\<rparr>,
             [(0, {PyStr ''a'', PyStr ''b'', PyStr ''c'', PyStr ''d''})],
             [(PyStr ''a'', 0), (PyStr ''b'', 0), (PyStr ''c'', 0), (PyStr ''d'', 0)]),
        \<lparr>mnodes = [0],
           medges = [(0, 0), (0, 0), (0, 0), (0, 0), (0, 0), (0, 0), (0, 0), (0, 0)],
           fused_set_attr = []\<rparr>)"
  by code_simp

text \<open>
  A source edge between two components is looked up in \<open>node2fuse_id\<close> before the later
  component has been entered there: the call raises \<open>KeyError\<close>.
\<close>

lemma collapse_cross_edge_raises:
  "collapse_fused_graph empty_mgraph [(PyStr ''a'', [PyStr ''a'']), (PyStr ''b'', [PyStr ''b''])]
       [NxGraph [(PyStr ''a'', [PyStr ''b'']), (PyStr ''b'', [PyStr ''a''])]] None
     = (Inl KeyError, \<lparr>mnodes = [0], medges = [], fused_set_attr = []\<rparr>)"
  by code_simp

section \<open>Source graphs that are not graphs, and the shared default\<close>

lemma gather_graphs_error:
  "gather_graphs component node gs acc = Inl e \<Longrightarrow> e \<noteq> AssertionError"
proof (induction gs arbitrary: acc)
  case Nil
  then show ?case by simp
next
  case (Cons g gs)
  show ?case
  proof (cases g)
    case (NxGraph G)
    with Cons show ?thesis
      by (auto simp: neighbors_def split: sum.splits bool.splits option.splits if_splits)
  next
    case (PyList xs)
    with Cons show ?thesis by (auto split: bool.splits)
  next
    case (PyNumber k)
    with Cons show ?thesis by auto
  qed
qed

lemma gather_nodes_error:
  "gather_nodes component ns gs acc = Inl e \<Longrightarrow> e \<noteq> AssertionError"
proof (induction ns arbitrary: acc)
  case Nil
  then show ?case by simp
next
  case (Cons node ns)
  then show ?case
    by (auto split: sum.splits dest: gather_graphs_error)
qed

lemma add_mapped_edges_error:
  "add_mapped_edges i n2 us C = Inl (e, C') \<Longrightarrow> e = KeyError"
  by (induction us arbitrary: C) (auto split: option.splits)

lemma collapse_component_error:
  "collapse_component graphs ic st = Inl (e, C') \<Longrightarrow> e \<noteq> AssertionError"
proof -
  assume a: "collapse_component graphs ic st = Inl (e, C')"
  obtain i c where ic: "ic = (i, c)" by (cases ic)
  obtain C id2 n2 where st: "st = (C, id2, n2)" by (cases st)
  from a show ?thesis
    unfolding ic st
    by (auto simp: Let_def update_kwargs_def split: sum.splits if_splits prod.splits
        dest: gather_nodes_error add_mapped_edges_error)
qed

lemma collapse_loop_error:
  "collapse_loop graphs ics st = Inl (e, C') \<Longrightarrow> e \<noteq> AssertionError"
proof (induction ics arbitrary: st)
  case Nil
  then show ?case by simp
next
  case (Cons ic ics)
  then show ?case
    by (auto split: sum.splits dest: collapse_component_error)
qed

lemma cls_collapse_asserts:
  "\<not> list_all is_graph graphs \<Longrightarrow>
   cls_collapse dflt fuser graphs collapsed_arg = (Inl AssertionError, dflt)"
  by (simp add: cls_collapse_def)

lemma cls_collapse_graphs_pass:
  assumes "list_all is_graph graphs"
  shows "fst (cls_collapse dflt fuser graphs collapsed_arg) \<noteq> Inl AssertionError"
proof
  assume a: "fst (cls_collapse dflt fuser graphs collapsed_arg) = Inl AssertionError"
  let ?r = "collapse_loop graphs
     (List.enumerate 0 (sort_key length (connected_component_subgraphs fuser)))
     (case collapsed_arg of None \<Rightarrow> dflt | Some C0 \<Rightarrow> C0, [], [])"
  show False
  proof (cases ?r)
    case (Inl ec)
    obtain e C' where ec: "ec = (e, C')" by (cases ec)
    from a assms Inl ec have "e = AssertionError"
      by (simp add: cls_collapse_def Let_def)
    with collapse_loop_error[OF Inl[unfolded ec]] show False by simp
  next
    case (Inr st)
    with a assms show False
      by (simp add: cls_collapse_def Let_def split: prod.splits)
  qed
qed

lemma collapse_explicit_argument:
  "collapse_fused_graph dflt fuser graphs (Some C0)
     = (fst (collapse_fused_graph dflt2 fuser graphs (Some C0)), dflt)"
  by (simp add: collapse_fused_graph_def Let_def split: sum.splits prod.splits)

text \<open>
  C5. The claim fails on \<open>collapse_fused_graph\<close>: it has no check of its source graphs,
  and a Python list among them that holds no node of the fused graph is skipped, so the
  call returns a collapsed graph. \<open>NetworkFuser.collapse\<close> raises \<open>AssertionError\<close> on
  the same arguments.
\<close>

theorem collapse_accepts_non_graph:
  "collapse_fused_graph empty_mgraph [(PyStr ''a'', [PyStr ''a''])] [PyList [PyStr ''b'']] None
     = (Inr (\<lparr>mnodes = [0], medges = [], fused_set_attr = []\<rparr>,
             [(0, {PyStr ''a''})], [(PyStr ''a'', 0)]),
        \<lparr>mnodes = [0], medges = [], fused_set_attr = []\<rparr>) \<and>
   cls_collapse empty_mgraph [(PyStr ''a'', [PyStr ''a''])] [PyList [PyStr ''b'']] None
     = (Inl AssertionError, empty_mgraph)"
  by code_simp

text \<open>
  C4. The claim fails on the code: the default \<open>collapsed\<close> is one object shared by all
  calls. A first call leaves two self-loops in it; a second call, on another fused graph
  and with no source graph at all, returns these two edges.
\<close>

theorem collapse_default_is_shared:
  "collapse_fused_graph empty_mgraph [(PyStr ''a'', [PyStr ''a''])]
       [NxGraph [(PyStr ''a'', [PyStr ''a''])]] None
     = (Inr (\<lparr>mnodes = [0], medges = [(0, 0), (0, 0)], fused_set_attr = []\<rparr>,
             [(0, {PyStr ''a''})], [(PyStr ''a'', 0)]),
        \<lparr>mnodes = [0], medges = [(0, 0), (0, 0)], fused_set_attr = []\<rparr>) \<and>
   collapse_fused_graph \<lparr>mnodes = [0], medges = [(0, 0), (0, 0)], fused_set_attr = []\<rparr>
       [(PyStr ''b'', [PyStr ''b''])] [] None
     = (Inr (\<lparr>mnodes = [0], medges = [(0, 0), (0, 0)], fused_set_attr = []\<rparr>,
             [(0, {PyStr ''b''})], [(PyStr ''b'', 0)]),
        \<lparr>mnodes = [0], medges = [(0, 0), (0, 0)], fused_set_attr = []\<rparr>)"
  by code_simp

end
